theory Spec2Isabelle
  imports Complex_Main
begin

section \<open>Conventions of the embedding\<close>

text \<open>
  The program \<^verbatim>\<open>cell_clustering.cpp\<close> simulates two cell populations in the unit cube.
  Its functions are embedded one by one, under their own names.

  \<^item> \<^verbatim>\<open>float\<close> and \<^verbatim>\<open>double\<close> values are real numbers: rounding, infinities and NaN
    are not modelled, so every theorem below is about exact arithmetic. A division by
    zero has HOL's value 0; the theorems that depend on a divisor say when it is zero.
  \<^item> \<^verbatim>\<open>int\<close> and \<^verbatim>\<open>int64_t\<close> values are unbounded integers; cell indices and counts,
    which the code never makes negative, are natural numbers.
  \<^item> An array reached through a pointer is a total map from indices to values, as a
    pointer carries no bound. For the per-cell arrays the size of the allocation is
    kept beside them (\<open>capacity\<close>) and the first index used outside it is recorded
    (\<open>oob\<close>). C++ gives no meaning to a program after such an access; the model keeps
    following the code on the total maps, so a statement about a state with a recorded
    access describes what the code computes on storage that is large enough.
  \<^item> The OpenMP loops are executed sequentially, in index order.
  \<^item> \<^verbatim>\<open>rand()\<close> is a stream \<open>rnd\<close> of the values returned by \<^verbatim>\<open>RandomFloatPos\<close>,
    with the number of calls made so far kept in the state.
  \<^item> Timing, printing and the reading of the parameters are left out.
\<close>

type_synonym vec3 = "real \<times> real \<times> real"

text \<open>\<^verbatim>\<open>Conc[s][i1][i2][i3]\<close> is \<open>Conc (s, i1, i2, i3)\<close>.\<close>

type_synonym field = "nat \<times> int \<times> int \<times> int \<Rightarrow> real"

definition getNorm :: "vec3 \<Rightarrow> real" where
  "getNorm currArray =
     (case currArray of (a0, a1, a2) \<Rightarrow> sqrt (0 + a0 * a0 + a1 * a1 + a2 * a2))"

definition getL2Distance :: "real \<Rightarrow> real \<Rightarrow> real \<Rightarrow> real \<Rightarrow> real \<Rightarrow> real \<Rightarrow> real" where
  "getL2Distance pos1x pos1y pos1z pos2x pos2y pos2z =
     sqrt (0 + (pos2x - pos1x) * (pos2x - pos1x)
             + (pos2y - pos1y) * (pos2y - pos1y)
             + (pos2z - pos1z) * (pos2z - pos1z))"

section \<open>The concentration field\<close>

subsection \<open>produceSubstances\<close>

text \<open>
  The index of the voxel along one axis: \<^verbatim>\<open>min((int)floor(p/sideLength), L)\<close>, where
  \<^verbatim>\<open>sideLength = 1/(float)L\<close> and \<^verbatim>\<open>L\<close> has been decremented before the loop.
\<close>

definition voxelIndex :: "int \<Rightarrow> real \<Rightarrow> int" where
  "voxelIndex L p = min \<lfloor>p / (1 / real_of_int L)\<rfloor> (L - 1)"

text \<open>The substance a cell of type \<open>t\<close> produces: \<^verbatim>\<open>!(typesAll[c]==1)\<close>.\<close>

definition substanceOf :: "int \<Rightarrow> nat" where
  "substanceOf t = (if t = 1 then 0 else 1)"

text \<open>The body of the loop of \<^verbatim>\<open>produceSubstances\<close> for the cell \<open>c\<close>.\<close>

definition produceCell :: "int \<Rightarrow> (nat \<Rightarrow> vec3) \<Rightarrow> (nat \<Rightarrow> int) \<Rightarrow> nat \<Rightarrow> field \<Rightarrow> field" where
  "produceCell L posAll typesAll c Conc =
     (case posAll c of (x, y, z) \<Rightarrow>
        let i1 = voxelIndex L x;
            i2 = voxelIndex L y;
            i3 = voxelIndex L z;
            C = (substanceOf (typesAll c), i1, i2, i3);
            v = Conc C + 0.1
        in Conc(C := (if v > 1 then 1 else v)))"

definition produceSubstances :: "field \<Rightarrow> (nat \<Rightarrow> vec3) \<Rightarrow> (nat \<Rightarrow> int) \<Rightarrow> int \<Rightarrow> nat \<Rightarrow> field" where
  "produceSubstances Conc posAll typesAll L n =
     fold (produceCell L posAll typesAll) [0..<n] Conc"

subsection \<open>runDiffusionStep\<close>

text \<open>
  The first loop nest copies both substances, voxel by voxel, into the local array
  \<^verbatim>\<open>tempConc\<close>. The local array is not initialised; \<open>tmp\<close> is what it holds before the copy.
\<close>

definition copyVoxel :: "field \<Rightarrow> int \<Rightarrow> int \<Rightarrow> int \<Rightarrow> field \<Rightarrow> field" where
  "copyVoxel Conc i1 i2 i3 tmp =
     tmp((0, i1, i2, i3) := Conc (0, i1, i2, i3), (1, i1, i2, i3) := Conc (1, i1, i2, i3))"

definition copyField :: "int \<Rightarrow> field \<Rightarrow> field \<Rightarrow> field" where
  "copyField L Conc tmp =
     fold (\<lambda>i1. fold (\<lambda>i2. fold (\<lambda>i3. copyVoxel Conc i1 i2 i3) [0..L - 1]) [0..L - 1]) [0..L - 1] tmp"

text \<open>
  One guarded pair of updates of the second loop nest:
  \<^verbatim>\<open>*C0 += (tempConc[0][nb] - *tC0) * D; *C1 += (tempConc[1][nb] - *tC1) * D;\<close>
  for the voxel \<open>v\<close> and its neighbour \<open>nb\<close>.
\<close>

definition addFrom :: "field \<Rightarrow> real \<Rightarrow> int \<times> int \<times> int \<Rightarrow> int \<times> int \<times> int \<Rightarrow> field \<Rightarrow> field" where
  "addFrom tempConc D v nb Conc =
     (let Conc' = Conc((0, v) := Conc (0, v) + (tempConc (0, nb) - tempConc (0, v)) * D)
      in Conc'((1, v) := Conc' (1, v) + (tempConc (1, nb) - tempConc (1, v)) * D))"

text \<open>The body of the second loop nest; \<open>D\<close> is already divided by six.\<close>

definition diffuseVoxel :: "int \<Rightarrow> real \<Rightarrow> field \<Rightarrow> int \<Rightarrow> int \<Rightarrow> int \<Rightarrow> field \<Rightarrow> field" where
  "diffuseVoxel L D tempConc i1 i2 i3 Conc =
     (let xUp = i1 + 1; xDown = i1 - 1;
          yUp = i2 + 1; yDown = i2 - 1;
          zUp = i3 + 1; zDown = i3 - 1;
          v = (i1, i2, i3);
          Ca = (if xUp < L then addFrom tempConc D v (xUp, i2, i3) Conc else Conc);
          Cb = (if xDown \<ge> 0 then addFrom tempConc D v (xDown, i2, i3) Ca else Ca);
          Cc = (if yUp < L then addFrom tempConc D v (i1, yUp, i3) Cb else Cb);
          Cd = (if yDown \<ge> 0 then addFrom tempConc D v (i1, yDown, i3) Cc else Cc);
          Ce = (if zUp < L then addFrom tempConc D v (i1, i2, zUp) Cd else Cd)
      in if zDown \<ge> 0 then addFrom tempConc D v (i1, i2, zDown) Ce else Ce)"

definition runDiffusionStepFrom :: "field \<Rightarrow> field \<Rightarrow> int \<Rightarrow> real \<Rightarrow> field" where
  "runDiffusionStepFrom tmp Conc L D =
     (let tempConc = copyField L Conc tmp;
          D6 = D / 6
      in fold (\<lambda>i1. fold (\<lambda>i2. fold (\<lambda>i3. diffuseVoxel L D6 tempConc i1 i2 i3)
                [0..L - 1]) [0..L - 1]) [0..L - 1] Conc)"

text \<open>
  Every entry of \<^verbatim>\<open>tempConc\<close> that the second loop nest reads has been written by the
  first, so the driver's call starts from an arbitrary fixed content, the zero array.
\<close>

definition runDiffusionStep :: "field \<Rightarrow> int \<Rightarrow> real \<Rightarrow> field" where
  "runDiffusionStep Conc L D = runDiffusionStepFrom (\<lambda>_. 0) Conc L D"

subsection \<open>runDecayStep\<close>

definition decayVoxel :: "real \<Rightarrow> int \<Rightarrow> int \<Rightarrow> int \<Rightarrow> field \<Rightarrow> field" where
  "decayVoxel mu i1 i2 i3 Conc =
     (let Conc' = Conc((0, i1, i2, i3) := Conc (0, i1, i2, i3) * mu)
      in Conc'((1, i1, i2, i3) := Conc' (1, i1, i2, i3) * mu))"

definition runDecayStep :: "field \<Rightarrow> int \<Rightarrow> real \<Rightarrow> field" where
  "runDecayStep Conc L mu =
     (let mu' = 1 - mu
      in fold (\<lambda>i1. fold (\<lambda>i2. fold (\<lambda>i3. decayVoxel mu' i1 i2 i3)
                [0..L - 1]) [0..L - 1]) [0..L - 1] Conc)"


subsection \<open>Predicates on positions, voxels and fields\<close>

definition inUnitCube :: "vec3 \<Rightarrow> bool" where
  "inUnitCube p = (case p of (x, y, z) \<Rightarrow> 0 \<le> x \<and> x \<le> 1 \<and> 0 \<le> y \<and> y \<le> 1 \<and> 0 \<le> z \<and> z \<le> 1)"

definition voxelOf :: "int \<Rightarrow> vec3 \<Rightarrow> int \<times> int \<times> int" where
  "voxelOf L p = (case p of (x, y, z) \<Rightarrow> (voxelIndex L x, voxelIndex L y, voxelIndex L z))"

definition inGrid :: "int \<Rightarrow> int \<times> int \<times> int \<Rightarrow> bool" where
  "inGrid L v = (case v of (i1, i2, i3) \<Rightarrow> 0 \<le> i1 \<and> i1 < L \<and> 0 \<le> i2 \<and> i2 < L \<and> 0 \<le> i3 \<and> i3 < L)"

definition unitField :: "field \<Rightarrow> bool" where
  "unitField F = (\<forall>k. 0 \<le> F k \<and> F k \<le> 1)"

section \<open>The cell population\<close>

text \<open>
  The state of a run: the field, the per-cell arrays of \<^verbatim>\<open>main\<close>, the number \<open>n\<close> of
  active cells, and three components that make visible what the program leaves implicit:
  \<open>capacity\<close>, the number of entries \<^verbatim>\<open>main\<close> allocates for every per-cell array;
  \<open>oob\<close>, the first cell index used outside that allocation, if any (C++ gives such an
  access no meaning; the model keeps following the code on the total maps);
  and \<open>calls\<close>, the number of calls of \<^verbatim>\<open>RandomFloatPos\<close> made so far.
\<close>

record sim =
  Conc :: field
  posAll :: "nat \<Rightarrow> vec3"
  currMov :: "nat \<Rightarrow> vec3"
  pathTraveled :: "nat \<Rightarrow> real"
  numberDivisions :: "nat \<Rightarrow> int"
  typesAll :: "nat \<Rightarrow> int"
  n :: nat
  capacity :: nat
  oob :: "nat option"
  calls :: nat

text \<open>An access to the entry \<open>i\<close> of a per-cell array.\<close>

definition touch :: "nat \<Rightarrow> sim \<Rightarrow> sim" where
  "touch i s = (if i < capacity s \<or> oob s \<noteq> None then s else s\<lparr>oob := Some i\<rparr>)"

subsection \<open>cellMovementAndDuplication\<close>

text \<open>Three consecutive calls of \<^verbatim>\<open>RandomFloatPos\<close>, each reduced by 0.5.\<close>

definition drawOffset :: "(nat \<Rightarrow> real) \<Rightarrow> nat \<Rightarrow> vec3" where
  "drawOffset rnd k = (rnd k - 0.5, rnd (k + 1) - 0.5, rnd (k + 2) - 0.5)"

text \<open>The random displacement of the cell \<open>c\<close> (lines 246 to 253).\<close>

definition moveCell :: "(nat \<Rightarrow> real) \<Rightarrow> nat \<Rightarrow> sim \<Rightarrow> sim" where
  "moveCell rnd c s =
     (let currentCellMovement = drawOffset rnd (calls s);
          currentNorm = getNorm currentCellMovement
      in case currentCellMovement of (m0, m1, m2) \<Rightarrow>
         case posAll s c of (x, y, z) \<Rightarrow>
           touch c (s\<lparr>posAll := (posAll s)(c := (x + 0.1 * m0 / currentNorm,
                                                  y + 0.1 * m1 / currentNorm,
                                                  z + 0.1 * m2 / currentNorm)),
                      pathTraveled := (pathTraveled s)(c := pathTraveled s c + 0.1),
                      calls := calls s + 3\<rparr>))"

text \<open>
  The division of the cell \<open>c\<close> (lines 259 to 273); \<open>currentNumberCells\<close> is the local
  counter of the function. The daughter's \<^verbatim>\<open>pathTraveled\<close> entry is not written.
\<close>

definition divideCell :: "(nat \<Rightarrow> real) \<Rightarrow> real \<Rightarrow> nat \<Rightarrow> nat \<times> sim \<Rightarrow> nat \<times> sim" where
  "divideCell rnd pathThreshold c cs =
     (case cs of (currentNumberCells, s) \<Rightarrow>
        let path' = (pathTraveled s)(c := pathTraveled s c - pathThreshold);
            divs' = (numberDivisions s)(c := numberDivisions s c + 1);
            currentNumberCells' = currentNumberCells + 1;
            d = currentNumberCells' - 1;
            divs'' = divs'(d := divs' c);
            types' = (typesAll s)(d := - typesAll s c);
            duplicatedCellOffset = drawOffset rnd (calls s);
            currentNorm = getNorm duplicatedCellOffset
        in case duplicatedCellOffset of (o0, o1, o2) \<Rightarrow>
           case posAll s c of (x, y, z) \<Rightarrow>
             (currentNumberCells',
              touch d (s\<lparr>posAll := (posAll s)(d := (x + 0.05 * o0 / currentNorm,
                                                     y + 0.05 * o1 / currentNorm,
                                                     z + 0.05 * o2 / currentNorm)),
                         pathTraveled := path',
                         numberDivisions := divs'',
                         typesAll := types',
                         calls := calls s + 3\<rparr>)))"

text \<open>The body of the loop over the cells.\<close>

definition growCell :: "(nat \<Rightarrow> real) \<Rightarrow> real \<Rightarrow> int \<Rightarrow> nat \<Rightarrow> nat \<times> sim \<Rightarrow> nat \<times> sim" where
  "growCell rnd pathThreshold divThreshold c cs =
     (case cs of (currentNumberCells, s) \<Rightarrow>
        let s' = moveCell rnd c s
        in if numberDivisions s' c < divThreshold
           then (if pathTraveled s' c > pathThreshold
                 then divideCell rnd pathThreshold c (currentNumberCells, s')
                 else (currentNumberCells, s'))
           else (currentNumberCells, s'))"

text \<open>The function returns \<open>currentNumberCells\<close>; the arrays are changed in place.\<close>

definition cellMovementAndDuplication ::
  "(nat \<Rightarrow> real) \<Rightarrow> sim \<Rightarrow> real \<Rightarrow> int \<Rightarrow> nat \<Rightarrow> nat \<times> sim" where
  "cellMovementAndDuplication rnd s pathThreshold divThreshold cnt =
     fold (growCell rnd pathThreshold divThreshold) [0..<cnt] (cnt, s)"

subsection \<open>runDiffusionClusterStep\<close>

text \<open>The neighbour indices along one axis, with \<open>L\<close> already decremented in the source.\<close>

definition upIndex :: "int \<Rightarrow> int \<Rightarrow> int" where
  "upIndex L i = min (i + 1) (L - 1)"

definition downIndex :: "int \<Rightarrow> int" where
  "downIndex i = max (i - 1) 0"

text \<open>The three divisors \<^verbatim>\<open>sideLength*(xUp-xDown)\<close>, \<^verbatim>\<open>sideLength*(yUp-yDown)\<close> and
  \<^verbatim>\<open>sideLength*(zUp-zDown)\<close> of lines 313 to 319, for a cell at \<open>p\<close>.\<close>

definition gradDenominators :: "int \<Rightarrow> vec3 \<Rightarrow> vec3" where
  "gradDenominators L p =
     (case voxelOf L p of (i1, i2, i3) \<Rightarrow>
        let sideLength = 1 / real_of_int L
        in (sideLength * real_of_int (upIndex L i1 - downIndex i1),
            sideLength * real_of_int (upIndex L i2 - downIndex i2),
            sideLength * real_of_int (upIndex L i3 - downIndex i3)))"

text \<open>The gradient of the substance \<open>sub\<close> at the voxel of \<open>p\<close>.\<close>

definition gradSub :: "field \<Rightarrow> int \<Rightarrow> nat \<Rightarrow> vec3 \<Rightarrow> vec3" where
  "gradSub F L sub p =
     (case voxelOf L p of (i1, i2, i3) \<Rightarrow>
      case gradDenominators L p of (dx, dy, dz) \<Rightarrow>
        ((F (sub, upIndex L i1, i2, i3) - F (sub, downIndex i1, i2, i3)) / dx,
         (F (sub, i1, upIndex L i2, i3) - F (sub, i1, downIndex i2, i3)) / dy,
         (F (sub, i1, i2, upIndex L i3) - F (sub, i1, i2, downIndex i3)) / dz))"

text \<open>The value stored in \<^verbatim>\<open>movVec[c]\<close> (lines 321 to 332).\<close>

definition cellMovement :: "field \<Rightarrow> int \<Rightarrow> real \<Rightarrow> vec3 \<Rightarrow> int \<Rightarrow> vec3" where
  "cellMovement F L speed p t =
     (let gradSub1 = gradSub F L 0 p;
          gradSub2 = gradSub F L 1 p;
          normGrad1 = getNorm gradSub1;
          normGrad2 = getNorm gradSub2
      in case gradSub1 of (a0, a1, a2) \<Rightarrow>
         case gradSub2 of (b0, b1, b2) \<Rightarrow>
           if normGrad1 > 0 \<and> normGrad2 > 0
           then (real_of_int t * (a0 / normGrad1 - b0 / normGrad2) * speed,
                 real_of_int t * (a1 / normGrad1 - b1 / normGrad2) * speed,
                 real_of_int t * (a2 / normGrad1 - b2 / normGrad2) * speed)
           else (0, 0, 0))"

definition clusterCell ::
  "field \<Rightarrow> (nat \<Rightarrow> vec3) \<Rightarrow> (nat \<Rightarrow> int) \<Rightarrow> int \<Rightarrow> real \<Rightarrow> nat \<Rightarrow> (nat \<Rightarrow> vec3) \<Rightarrow> (nat \<Rightarrow> vec3)" where
  "clusterCell F pos types L speed c movVec =
     movVec(c := cellMovement F L speed (pos c) (types c))"

definition runDiffusionClusterStep ::
  "field \<Rightarrow> (nat \<Rightarrow> vec3) \<Rightarrow> (nat \<Rightarrow> vec3) \<Rightarrow> (nat \<Rightarrow> int) \<Rightarrow> nat \<Rightarrow> int \<Rightarrow> real \<Rightarrow> (nat \<Rightarrow> vec3)" where
  "runDiffusionClusterStep F movVec pos types cc L speed =
     fold (clusterCell F pos types L speed) [0..<cc] movVec"


section \<open>The clustering criterion\<close>

text \<open>\<^verbatim>\<open>pow(float(targetN)/float(n),1.0/3.0)/2\<close>, for a non-negative quotient.\<close>

definition subVolMax :: "int \<Rightarrow> nat \<Rightarrow> real" where
  "subVolMax targetN cnt = root 3 (real_of_int targetN / real cnt) / 2"

definition inSubVol :: "real \<Rightarrow> vec3 \<Rightarrow> bool" where
  "inSubVol m p =
     (case p of (x, y, z) \<Rightarrow> \<bar>x - 0.5\<bar> < m \<and> \<bar>y - 0.5\<bar> < m \<and> \<bar>z - 0.5\<bar> < m)"

text \<open>
  The first loop of \<^verbatim>\<open>getCriterion\<close>: the cells of the subvolume are copied, in index
  order, to \<^verbatim>\<open>posSubvol\<close> and \<^verbatim>\<open>typesSubvol\<close>; the list holds both, and its length is
  \<^verbatim>\<open>nrCellsSubVol\<close>.
\<close>

definition selectCell :: "real \<Rightarrow> (nat \<Rightarrow> vec3) \<Rightarrow> (nat \<Rightarrow> int) \<Rightarrow> nat \<Rightarrow> (vec3 \<times> int) list \<Rightarrow> (vec3 \<times> int) list" where
  "selectCell m pos types i1 sub =
     (if inSubVol m (pos i1) then sub @ [(pos i1, types i1)] else sub)"

definition subVolume :: "(nat \<Rightarrow> vec3) \<Rightarrow> (nat \<Rightarrow> int) \<Rightarrow> nat \<Rightarrow> int \<Rightarrow> (vec3 \<times> int) list" where
  "subVolume pos types cnt targetN =
     fold (selectCell (subVolMax targetN cnt) pos types) [0..<cnt] []"

definition cellDistance :: "vec3 \<times> int \<Rightarrow> vec3 \<times> int \<Rightarrow> real" where
  "cellDistance a b =
     (case a of ((x1, y1, z1), _) \<Rightarrow> case b of ((x2, y2, z2), _) \<Rightarrow>
        getL2Distance x1 y1 z1 x2 y2 z2)"

text \<open>The body of the pair loop; the counters are
  \<open>(nrClose, sameTypeClose, diffTypeClose)\<close>.\<close>

definition countPair :: "(vec3 \<times> int) list \<Rightarrow> real \<Rightarrow> nat \<Rightarrow> nat \<Rightarrow> nat \<times> nat \<times> nat \<Rightarrow> nat \<times> nat \<times> nat" where
  "countPair sub spatialRange i1 i2 k =
     (case k of (nrClose, sameTypeClose, diffTypeClose) \<Rightarrow>
        let currDist = cellDistance (sub ! i1) (sub ! i2)
        in if currDist < spatialRange
           then (if snd (sub ! i1) * snd (sub ! i2) < 0
                 then (nrClose + 1, sameTypeClose, diffTypeClose + 1)
                 else (nrClose + 1, sameTypeClose + 1, diffTypeClose))
           else k)"

definition countPairs :: "(vec3 \<times> int) list \<Rightarrow> real \<Rightarrow> nat \<times> nat \<times> nat" where
  "countPairs sub spatialRange =
     fold (\<lambda>i1. fold (countPair sub spatialRange i1) [i1 + 1..<length sub])
          [0..<length sub] (0, 0, 0)"

definition getCriterion :: "(nat \<Rightarrow> vec3) \<Rightarrow> (nat \<Rightarrow> int) \<Rightarrow> nat \<Rightarrow> real \<Rightarrow> int \<Rightarrow> bool" where
  "getCriterion pos types cnt spatialRange targetN =
     (let sub = subVolume pos types cnt targetN;
          nrCellsSubVol = length sub
      in if real nrCellsSubVol / real_of_int targetN < 0.25 then False
         else if real nrCellsSubVol / real_of_int targetN > 4 then False
         else case countPairs sub spatialRange of (nrClose, sameTypeClose, diffTypeClose) \<Rightarrow>
           let correctness_coefficient = real diffTypeClose / (real nrClose + 1.0)
           in if correctness_coefficient > 0.1 then False
              else let avgNeighbors = real sameTypeClose / real nrCellsSubVol
                   in if avgNeighbors < 100 then False else True)"

section \<open>The driver\<close>

text \<open>The parameters \<^verbatim>\<open>main\<close> reads from the record returned by \<^verbatim>\<open>get_params\<close>.\<close>

record cdc_params =
  speed :: real
  T :: nat
  L :: int
  D :: real
  mu :: real
  divThreshold :: nat
  finalNumberCells :: nat
  spatialRange :: real
  pathThreshold :: real

subsection \<open>Initialisation\<close>

text \<open>
  The body of the initialisation loop (lines 623 to 634). Of every position and of every
  movement vector it assigns the components 0 and 1 only; component 2 keeps what the
  freshly allocated array holds.
\<close>

definition initCell :: "nat \<Rightarrow> sim \<Rightarrow> sim" where
  "initCell i1 s =
     s\<lparr>pathTraveled := (pathTraveled s)(i1 := 0),
       currMov := (currMov s)(i1 := (case currMov s i1 of (m0, m1, m2) \<Rightarrow> (0, 0, m2))),
       posAll := (posAll s)(i1 := (case posAll s i1 of (x, y, z) \<Rightarrow> (0.5, 0.5, z)))\<rparr>"

definition zeroVoxel :: "int \<Rightarrow> int \<Rightarrow> int \<Rightarrow> field \<Rightarrow> field" where
  "zeroVoxel i2 i3 i4 F = F((0, i2, i3, i4) := 0, (1, i2, i3, i4) := 0)"

text \<open>
  The state at the start of phase 1. \<open>raw\<close> gives the content of the arrays as allocated,
  before \<^verbatim>\<open>main\<close> has assigned anything.
\<close>

definition initSim :: "cdc_params \<Rightarrow> sim \<Rightarrow> sim" where
  "initSim p raw =
     (let s0 = touch 0 (raw\<lparr>numberDivisions := (numberDivisions raw)(0 := 0),
                            typesAll := (typesAll raw)(0 := 1),
                            capacity := finalNumberCells p, oob := None, calls := 0\<rparr>);
          s1 = fold initCell [0..<finalNumberCells p] s0;
          s2 = s1\<lparr>Conc := fold (\<lambda>i2. fold (\<lambda>i3. fold (\<lambda>i4. zeroVoxel i2 i3 i4)
                                 [0..L p - 1]) [0..L p - 1]) [0..L p - 1] (Conc s1)\<rparr>
      in s2\<lparr>n := 1\<rparr>)"

subsection \<open>Phase 1\<close>

definition clamp01 :: "real \<Rightarrow> real" where
  "clamp01 x = (if x < 0 then 0 else if x > 1 then 1 else x)"

text \<open>The boundary conditions for the cell \<open>c\<close> (lines 697 to 704 and 749 to 756).\<close>

definition clampCell :: "nat \<Rightarrow> sim \<Rightarrow> sim" where
  "clampCell c s =
     touch c (s\<lparr>posAll := (posAll s)(c := (case posAll s c of (x, y, z) \<Rightarrow>
                                             (clamp01 x, clamp01 y, clamp01 z)))\<rparr>)"

text \<open>The boundary loop of phase 1, \<^verbatim>\<open>for(c=n;c>0;--c)\<close>: \<open>c\<close> runs from \<open>n\<close> down to 1.\<close>

definition clampPhase1 :: "sim \<Rightarrow> sim" where
  "clampPhase1 s = fold clampCell (rev [1..<n s + 1]) s"

text \<open>One pass through the body of the loop of phase 1.\<close>

definition phase1Step :: "cdc_params \<Rightarrow> (nat \<Rightarrow> real) \<Rightarrow> sim \<Rightarrow> sim" where
  "phase1Step p rnd s =
     (let s1 = s\<lparr>Conc := produceSubstances (Conc s) (posAll s) (typesAll s) (L p) (n s)\<rparr>;
          s2 = s1\<lparr>Conc := runDiffusionStep (Conc s1) (L p) (D p)\<rparr>;
          s3 = s2\<lparr>Conc := runDecayStep (Conc s2) (L p) (mu p)\<rparr>
      in case cellMovementAndDuplication rnd s3 (pathThreshold p) (int (divThreshold p)) (n s3)
         of (cnt, s4) \<Rightarrow> clampPhase1 (s4\<lparr>n := cnt\<rparr>))"

text \<open>
  Phase 1, \<^verbatim>\<open>while (n<finalNumberCells)\<close>. The loop has no bound on its iterations, so the
  result is optional: \<open>None\<close> stands for a loop that never ends.
\<close>

partial_function (option) phase1 :: "cdc_params \<Rightarrow> (nat \<Rightarrow> real) \<Rightarrow> sim \<Rightarrow> sim option" where
  "phase1 p rnd s =
     (if n s < finalNumberCells p then phase1 p rnd (phase1Step p rnd s) else Some s)"

subsection \<open>Phase 2\<close>

text \<open>The body of the inner loop of phase 2 (lines 744 to 756).\<close>

definition applyMovement :: "nat \<Rightarrow> sim \<Rightarrow> sim" where
  "applyMovement c s =
     clampCell c (s\<lparr>posAll := (posAll s)(c := (case posAll s c of (x, y, z) \<Rightarrow>
                                                case currMov s c of (m0, m1, m2) \<Rightarrow>
                                                  (x + m0, y + m1, z + m2)))\<rparr>)"

text \<open>One pass through the body of the loop of phase 2; \<^verbatim>\<open>c=n; while(c--)\<close> runs from
  \<open>n - 1\<close> down to 0.\<close>

definition phase2Step :: "cdc_params \<Rightarrow> sim \<Rightarrow> sim" where
  "phase2Step p s =
     (let s1 = s\<lparr>Conc := produceSubstances (Conc s) (posAll s) (typesAll s) (L p) (n s)\<rparr>;
          s2 = s1\<lparr>Conc := runDiffusionStep (Conc s1) (L p) (D p)\<rparr>;
          s3 = s2\<lparr>Conc := runDecayStep (Conc s2) (L p) (mu p)\<rparr>;
          s4 = s3\<lparr>currMov := runDiffusionClusterStep (Conc s3) (currMov s3) (posAll s3)
                                  (typesAll s3) (n s3) (L p) (speed p)\<rparr>
      in fold applyMovement (rev [0..<n s4]) s4)"

text \<open>Phase 2, \<^verbatim>\<open>i = T; while(i--)\<close>: the body runs \<open>T\<close> times.\<close>

fun phase2 :: "cdc_params \<Rightarrow> nat \<Rightarrow> sim \<Rightarrow> sim" where
  "phase2 p 0 s = s"
| "phase2 p (Suc i) s = phase2 p i (phase2Step p s)"

section \<open>The operations as the specification words them\<close>

text \<open>
  The diffusion step in the words of the specification: the contribution of the
  neighbour \<open>nb\<close> to the voxel \<open>v\<close> of the substance \<open>sub\<close> is the difference of the two
  values of the field \<open>F\<close> times the constant, and a voxel receives the contributions of
  those of its six axis-aligned neighbours whose changed index lies in \<open>[0, G)\<close>.
\<close>

definition flux :: "field \<Rightarrow> real \<Rightarrow> nat \<Rightarrow> int \<times> int \<times> int \<Rightarrow> int \<times> int \<times> int \<Rightarrow> real" where
  "flux F Dc sub v nb = (F (sub, nb) - F (sub, v)) * Dc"

definition netFlux :: "int \<Rightarrow> field \<Rightarrow> real \<Rightarrow> nat \<Rightarrow> int \<times> int \<times> int \<Rightarrow> real" where
  "netFlux G F Dc sub v =
     (case v of (i1, i2, i3) \<Rightarrow>
        (if i1 + 1 < G then flux F Dc sub v (i1 + 1, i2, i3) else 0)
      + (if i1 - 1 \<ge> 0 then flux F Dc sub v (i1 - 1, i2, i3) else 0)
      + (if i2 + 1 < G then flux F Dc sub v (i1, i2 + 1, i3) else 0)
      + (if i2 - 1 \<ge> 0 then flux F Dc sub v (i1, i2 - 1, i3) else 0)
      + (if i3 + 1 < G then flux F Dc sub v (i1, i2, i3 + 1) else 0)
      + (if i3 - 1 \<ge> 0 then flux F Dc sub v (i1, i2, i3 - 1) else 0))"

text \<open>Vectors: sum, difference, multiple, the vector divided by its norm, the component 2,
  and the vectors without a zero component.\<close>

definition vadd :: "vec3 \<Rightarrow> vec3 \<Rightarrow> vec3" where
  "vadd a b = (case a of (a0, a1, a2) \<Rightarrow> case b of (b0, b1, b2) \<Rightarrow> (a0 + b0, a1 + b1, a2 + b2))"


definition vscale :: "real \<Rightarrow> vec3 \<Rightarrow> vec3" where
  "vscale k a = (case a of (a0, a1, a2) \<Rightarrow> (k * a0, k * a1, k * a2))"

definition unitVec :: "vec3 \<Rightarrow> vec3" where
  "unitVec a = (case a of (a0, a1, a2) \<Rightarrow> (a0 / getNorm a, a1 / getNorm a, a2 / getNorm a))"

definition third :: "vec3 \<Rightarrow> real" where
  "third a = (case a of (a0, a1, a2) \<Rightarrow> a2)"

definition nonzero3 :: "vec3 \<Rightarrow> bool" where
  "nonzero3 a = (case a of (a0, a1, a2) \<Rightarrow> a0 \<noteq> 0 \<and> a1 \<noteq> 0 \<and> a2 \<noteq> 0)"

text \<open>
  The condition for a division in the words of the specification: the cell has divided
  fewer than \<open>dT\<close> times, and its path after the displacement of this step exceeds \<open>pT\<close>.
\<close>

definition divides :: "real \<Rightarrow> int \<Rightarrow> nat \<Rightarrow> sim \<Rightarrow> bool" where
  "divides pT dT c s = (numberDivisions s c < dT \<and> pathTraveled s c + 0.1 > pT)"

text \<open>
  The criterion in the words of the specification: the cells of the central subvolume,
  in index order; the close pairs among them, a pair being two indices \<open>i < j\<close> of that
  list; and the pairs of different type. \<open>pairsBelow m\<close> lists the pairs in the order in
  which the two nested loops visit them.
\<close>

definition centralCells :: "(nat \<Rightarrow> vec3) \<Rightarrow> (nat \<Rightarrow> int) \<Rightarrow> nat \<Rightarrow> int \<Rightarrow> (vec3 \<times> int) list" where
  "centralCells pos types cnt targetN =
     map (\<lambda>i. (pos i, types i))
       (filter (\<lambda>i. inSubVol (root 3 (real_of_int targetN / real cnt) / 2) (pos i)) [0..<cnt])"

definition closePairs :: "(vec3 \<times> int) list \<Rightarrow> real \<Rightarrow> (nat \<times> nat) set" where
  "closePairs sub r =
     {(i, j). i < j \<and> j < length sub \<and> cellDistance (sub ! i) (sub ! j) < r}"

definition differentType :: "(vec3 \<times> int) list \<Rightarrow> nat \<times> nat \<Rightarrow> bool" where
  "differentType sub ij = (case ij of (i, j) \<Rightarrow> snd (sub ! i) * snd (sub ! j) < 0)"

definition pairsBelow :: "nat \<Rightarrow> (nat \<times> nat) list" where
  "pairsBelow m = concat (map (\<lambda>i. map (Pair i) [i + 1..<m]) [0..<m])"

section \<open>The bookkeeping of the growth step\<close>

text \<open>
  The count of cells depends on the paths and the division counts only, not on the
  positions and not on the field. A \<open>book\<close> holds the current count, the paths, the
  division counts and the record of accesses outside the allocation; \<open>growBook\<close> is
  what the body of the loop of \<^verbatim>\<open>cellMovementAndDuplication\<close> does to them. \<open>kraft\<close> is the
  invariant of the lineage tree: a cell with \<open>d\<close> divisions weighs \<open>2 ^ (K - d)\<close>, and the
  weights of the cells add up to \<open>2 ^ K\<close>, as a division replaces a cell by two cells of
  half its weight.
\<close>

type_synonym book = "nat \<times> (nat \<Rightarrow> real) \<times> (nat \<Rightarrow> int) \<times> nat option"

definition touchBook :: "nat \<Rightarrow> nat \<Rightarrow> nat option \<Rightarrow> nat option" where
  "touchBook cap i ob = (if i < cap \<or> ob \<noteq> None then ob else Some i)"

definition bookOf :: "nat \<times> sim \<Rightarrow> book" where
  "bookOf cs = (case cs of (cur, s) \<Rightarrow> (cur, pathTraveled s, numberDivisions s, oob s))"

definition growBook :: "nat \<Rightarrow> real \<Rightarrow> int \<Rightarrow> nat \<Rightarrow> book \<Rightarrow> book" where
  "growBook cap pT dT c b =
     (case b of (cur, path, divs, ob) \<Rightarrow>
        if divs c < dT \<and> path c + 0.1 > pT
        then (cur + 1, path(c := path c + 0.1 - pT), divs(c := divs c + 1, cur := divs c + 1),
              touchBook cap cur (touchBook cap c ob))
        else (cur, path(c := path c + 0.1), divs, touchBook cap c ob))"

definition kraft :: "nat \<Rightarrow> nat \<Rightarrow> (nat \<Rightarrow> int) \<Rightarrow> bool" where
  "kraft K cur divs =
     ((\<forall>c. c < cur \<longrightarrow> 0 \<le> divs c \<and> divs c \<le> int K)
      \<and> (\<Sum>c<cur. (2::nat) ^ (K - nat (divs c))) = 2 ^ K)"

text \<open>The count, the paths, the division counts and the record of accesses after one
  pass of the loop of phase 1, before the boundary loop.\<close>

definition stepBook :: "cdc_params \<Rightarrow> sim \<Rightarrow> book" where
  "stepBook p s =
     fold (growBook (capacity s) (pathThreshold p) (int (divThreshold p))) [0..<n s]
       (n s, pathTraveled s, numberDivisions s, oob s)"

text \<open>The invariant of the lineage tree on the active cells of a state.\<close>

definition growthInv :: "nat \<Rightarrow> sim \<Rightarrow> bool" where
  "growthInv K s = kraft K (n s) (numberDivisions s)"

section \<open>Parts of a pass of the driver\<close>

text \<open>
  The body of the loop of phase 1 up to the boundary loop: production, diffusion and decay
  on the field, then \<^verbatim>\<open>cellMovementAndDuplication\<close>, whose result becomes the cell count.
  The pass \<open>phase1Step\<close> is this followed by the boundary loop.
\<close>

definition growthPass :: "cdc_params \<Rightarrow> (nat \<Rightarrow> real) \<Rightarrow> sim \<Rightarrow> sim" where
  "growthPass p rnd s =
     (let s1 = s\<lparr>Conc := produceSubstances (Conc s) (posAll s) (typesAll s) (L p) (n s)\<rparr>;
          s2 = s1\<lparr>Conc := runDiffusionStep (Conc s1) (L p) (D p)\<rparr>;
          s3 = s2\<lparr>Conc := runDecayStep (Conc s2) (L p) (mu p)\<rparr>
      in case cellMovementAndDuplication rnd s3 (pathThreshold p) (int (divThreshold p)) (n s3)
         of (cnt, s4) \<Rightarrow> s4\<lparr>n := cnt\<rparr>)"


section \<open>Predicates of the statements\<close>

text \<open>
  The number of cells below the count that feed the voxel and substance \<open>k\<close>.
\<close>

definition deposits :: "int \<Rightarrow> (nat \<Rightarrow> vec3) \<Rightarrow> (nat \<Rightarrow> int) \<Rightarrow> nat \<Rightarrow> nat \<times> int \<times> int \<times> int \<Rightarrow> nat" where
  "deposits G pos types cnt k =
     card {c. c < cnt \<and> (substanceOf (types c), voxelOf G (pos c)) = k}"


text \<open>
  At the start of a pass, the voxel of every active cell is a voxel of the grid, so that
  \<^verbatim>\<open>produceSubstances\<close> uses the field inside its storage.
\<close>

definition passValid :: "cdc_params \<Rightarrow> sim \<Rightarrow> bool" where
  "passValid p s = (\<forall>c. c < n s \<longrightarrow> inGrid (L p) (voxelOf (L p) (posAll s c)))"

text \<open>
  The invariant of the lineage tree, on arrays of \<open>2 ^ K\<close> entries none of which has been
  used outside its range, with fewer active cells than entries.
\<close>

definition safeInv :: "nat \<Rightarrow> sim \<Rightarrow> bool" where
  "safeInv K s = (growthInv K s \<and> capacity s = 2 ^ K \<and> oob s = None \<and> n s < 2 ^ K)"

text \<open>
  The course of phase 1 from a state: some number \<open>k\<close> of whole passes with fewer cells
  than the final number and every index inside the arrays, each started with every voxel
  inside the grid; then either a pass that starts with a voxel outside the grid, or a pass
  whose growth step reaches the final number of cells, with every index inside the arrays
  and every division count at the threshold.
\<close>

definition growthOutcome :: "cdc_params \<Rightarrow> (nat \<Rightarrow> real) \<Rightarrow> sim \<Rightarrow> bool" where
  "growthOutcome p rnd s =
     (\<exists>k. (\<forall>j. j \<le> k \<longrightarrow> n ((phase1Step p rnd ^^ j) s) < finalNumberCells p
                         \<and> oob ((phase1Step p rnd ^^ j) s) = None)
        \<and> (\<forall>j. j < k \<longrightarrow> passValid p ((phase1Step p rnd ^^ j) s))
        \<and> (\<not> passValid p ((phase1Step p rnd ^^ k) s)
           \<or> n (growthPass p rnd ((phase1Step p rnd ^^ k) s)) = finalNumberCells p
             \<and> oob (growthPass p rnd ((phase1Step p rnd ^^ k) s)) = None
             \<and> (\<forall>c. c < finalNumberCells p \<longrightarrow>
                   numberDivisions (growthPass p rnd ((phase1Step p rnd ^^ k) s)) c
                     = int (divThreshold p))))"

text \<open>
  Positions with no negative coordinate.
\<close>

definition nonneg3 :: "vec3 \<Rightarrow> bool" where
  "nonneg3 a = (case a of (a0, a1, a2) \<Rightarrow> 0 \<le> a0 \<and> 0 \<le> a1 \<and> 0 \<le> a2)"

definition nonnegCells :: "sim \<Rightarrow> bool" where
  "nonnegCells s = (\<forall>x. x < n s \<longrightarrow> nonneg3 (posAll s x))"


section \<open>Example inputs\<close>


definition rndAxis :: "nat \<Rightarrow> real" where
  "rndAxis k = (if k mod 3 = 0 then 1 else 1/2)"


text \<open>
  Parameters with the final number of cells, the division threshold and the path
  threshold left open, and storage as allocated whose every entry holds 9, except the
  third coordinate of the positions, which is \<open>z\<close>.
\<close>

definition exampleParams :: "nat \<Rightarrow> nat \<Rightarrow> real \<Rightarrow> cdc_params" where
  "exampleParams fin dT pT =
     \<lparr>speed = 1/10, T = 1, L = 2, D = 1/10, mu = 1/10, divThreshold = dT,
      finalNumberCells = fin, spatialRange = 1/10, pathThreshold = pT\<rparr>"

definition rawSim :: "real \<Rightarrow> sim" where
  "rawSim z = \<lparr>Conc = (\<lambda>_. 9), posAll = (\<lambda>_. (9, 9, z)), currMov = (\<lambda>_. (9, 9, 9)),
     pathTraveled = (\<lambda>_. 9), numberDivisions = (\<lambda>_. 9), typesAll = (\<lambda>_. 9),
     n = 9, capacity = 9, oob = Some 9, calls = 9\<rparr>"

section \<open>Properties\<close>


subsection \<open>produceSubstances\<close>

lemma produceCell_eq:
  "produceCell G pos types c F =
     F((substanceOf (types c), voxelOf G (pos c)) :=
          min 1 (F (substanceOf (types c), voxelOf G (pos c)) + 0.1))"
  by (cases "pos c") (auto simp: produceCell_def voxelOf_def Let_def min_def)

lemma produceCell_unit:
  assumes u: "unitField F"
  shows "unitField (produceCell G pos types c F)"
proof -
  let ?k = "(substanceOf (types c), voxelOf G (pos c))"
  have "0 \<le> F ?k" using u unfolding unitField_def by blast
  then have "0 \<le> min 1 (F ?k + 0.1) \<and> min 1 (F ?k + 0.1) \<le> 1" by simp
  then show ?thesis
    using u unfolding produceCell_eq unitField_def by (metis fun_upd_apply)
qed

lemma fold_produceCell_unit:
  "unitField F \<Longrightarrow> unitField (fold (produceCell G pos types) cs F)"
  by (induction cs arbitrary: F) (simp_all add: produceCell_unit)

lemma voxelIndex_floor: "voxelIndex G x = min \<lfloor>x * real_of_int G\<rfloor> (G - 1)"
  by (simp add: voxelIndex_def)

lemma voxelIndex_inGrid:
  assumes "0 < G" "0 \<le> x"
  shows "0 \<le> voxelIndex G x \<and> voxelIndex G x < G"
proof -
  have "0 \<le> x * real_of_int G" using assms by simp
  then have "0 \<le> \<lfloor>x * real_of_int G\<rfloor>" by simp
  then show ?thesis using assms by (simp add: voxelIndex_floor min_def)
qed

lemma voxelOf_inGrid: "0 < G \<Longrightarrow> inUnitCube q \<Longrightarrow> inGrid G (voxelOf G q)"
  by (cases q) (simp add: inUnitCube_def voxelOf_def inGrid_def voxelIndex_inGrid)

lemma produceSubstances_Suc:
  "produceSubstances F pos types G (Suc m) =
     produceCell G pos types m (produceSubstances F pos types G m)"
  by (simp add: produceSubstances_def)

lemma deposits_Suc:
  "deposits G pos types (Suc m) k =
     (if (substanceOf (types m), voxelOf G (pos m)) = k then Suc (deposits G pos types m k)
      else deposits G pos types m k)"
proof -
  let ?A = "{c. c < m \<and> (substanceOf (types c), voxelOf G (pos c)) = k}"
  have f: "finite ?A" by simp
  have n: "m \<notin> ?A" by simp
  show ?thesis
  proof (cases "(substanceOf (types m), voxelOf G (pos m)) = k")
    case True
    then have "{c. c < Suc m \<and> (substanceOf (types c), voxelOf G (pos c)) = k} = insert m ?A"
      by (auto simp: less_Suc_eq)
    then show ?thesis using True card_insert_disjoint[OF f n] by (simp add: deposits_def)
  next
    case False
    then have "{c. c < Suc m \<and> (substanceOf (types c), voxelOf G (pos c)) = k} = ?A"
      by (auto simp: less_Suc_eq)
    then show ?thesis using False by (simp add: deposits_def)
  qed
qed

lemma min_deposit: "min 1 (min 1 a + 0.1) = min (1::real) (a + 0.1)"
  by (auto simp: min_def)

lemma produceSubstances_closed:
  assumes "F k \<le> 1"
  shows "produceSubstances F pos types G cnt k = min 1 (F k + real (deposits G pos types cnt k) * 0.1)"
proof (induction cnt)
  case 0
  then show ?case using assms by (simp add: produceSubstances_def deposits_def)
next
  case (Suc m)
  show ?case
  proof (cases "(substanceOf (types m), voxelOf G (pos m)) = k")
    case True
    have "produceSubstances F pos types G (Suc m) k =
        min 1 (produceSubstances F pos types G m k + 0.1)"
      unfolding produceSubstances_Suc produceCell_eq using True by simp
    also have "\<dots> = min 1 (F k + real (deposits G pos types m k) * 0.1 + 0.1)"
      unfolding Suc min_deposit ..
    also have "\<dots> = min 1 (F k + real (deposits G pos types (Suc m) k) * 0.1)"
      unfolding deposits_Suc using True by (simp add: algebra_simps)
    finally show ?thesis .
  next
    case False
    have "produceSubstances F pos types G (Suc m) k = produceSubstances F pos types G m k"
      unfolding produceSubstances_Suc produceCell_eq using False by simp
    then show ?thesis unfolding deposits_Suc using False Suc by simp
  qed
qed

text \<open>
  Claim C3. For a cell \<open>c\<close>, \<^verbatim>\<open>produceSubstances\<close> takes the voxel whose index along each
  axis is the floor of the coordinate divided by the side length, limited above by the
  last index \<open>G - 1\<close>; it adds 0.1 to that voxel of substance 0 for a cell of type 1 and
  of substance 1 for a cell of type -1, and limits the sum to 1. If the grid has a
  positive resolution, every value of the field is in [0,1] before the call and every
  active cell is in the unit cube, then every voxel used is a voxel of the grid and
  every value of the field is in [0,1] after the call, however many cells share a voxel.
  The field that \<^verbatim>\<open>produceSubstances\<close> returns is the one these deposits make: with no
  cell it is the field before the call; the cell \<open>m\<close> changes the field left by the cells
  before it at its own voxel of its own substance and nowhere else, to the least of 1 and
  the value there plus 0.1; and at every voxel of either substance the value after the
  call is the least of 1 and the value before the call plus 0.1 times the number of
  active cells that feed this voxel of this substance.
\<close>

theorem C3_produceSubstances:
  assumes "0 < G" and "unitField F" and "\<forall>c<cnt. inUnitCube (pos c)"
  shows "(\<forall>c F'. produceCell G pos types c F' =
            F'((substanceOf (types c), voxelOf G (pos c)) :=
               min 1 (F' (substanceOf (types c), voxelOf G (pos c)) + 0.1)))
       \<and> substanceOf 1 = 0 \<and> substanceOf (- 1) = 1
       \<and> (\<forall>x y z. voxelOf G (x, y, z) =
            (min \<lfloor>x / (1 / real_of_int G)\<rfloor> (G - 1), min \<lfloor>y / (1 / real_of_int G)\<rfloor> (G - 1),
             min \<lfloor>z / (1 / real_of_int G)\<rfloor> (G - 1)))
       \<and> (\<forall>c<cnt. inGrid G (voxelOf G (pos c)))
       \<and> unitField (produceSubstances F pos types G cnt)
       \<and> produceSubstances F pos types G 0 = F
       \<and> (\<forall>m<cnt. produceSubstances F pos types G (Suc m) =
            (produceSubstances F pos types G m)
              ((substanceOf (types m), voxelOf G (pos m)) :=
                 min 1 (produceSubstances F pos types G m (substanceOf (types m), voxelOf G (pos m)) + 0.1)))
       \<and> (\<forall>k. produceSubstances F pos types G cnt k =
            min 1 (F k + real (card {c. c < cnt \<and> (substanceOf (types c), voxelOf G (pos c)) = k}) * 0.1))"
proof (intro conjI)
  show "\<forall>c<cnt. inGrid G (voxelOf G (pos c))"
    using assms(1,3) by (simp add: voxelOf_inGrid)
  show "unitField (produceSubstances F pos types G cnt)"
    using assms(2) by (simp add: produceSubstances_def fold_produceCell_unit)
  show "produceSubstances F pos types G 0 = F" by (simp add: produceSubstances_def)
  show "\<forall>m<cnt. produceSubstances F pos types G (Suc m) =
            (produceSubstances F pos types G m)
              ((substanceOf (types m), voxelOf G (pos m)) :=
                 min 1 (produceSubstances F pos types G m (substanceOf (types m), voxelOf G (pos m)) + 0.1))"
    by (simp add: produceSubstances_Suc produceCell_eq)
  show "\<forall>k. produceSubstances F pos types G cnt k =
            min 1 (F k + real (card {c. c < cnt \<and> (substanceOf (types c), voxelOf G (pos c)) = k}) * 0.1)"
  proof
    fix k
    have "F k \<le> 1" using assms(2) unfolding unitField_def by blast
    from produceSubstances_closed[of F k pos types G cnt, OF this] show "produceSubstances F pos types G cnt k =
            min 1 (F k + real (card {c. c < cnt \<and> (substanceOf (types c), voxelOf G (pos c)) = k}) * 0.1)"
      by (simp add: deposits_def)
  qed
qed (simp_all add: produceCell_eq substanceOf_def voxelOf_def voxelIndex_def)

text \<open>
  Instances on a grid of resolution 2 and a field that is zero everywhere, with every cell
  at the centre of the cube. Twelve cells of type 1 leave the voxel (1,1,1) of substance 0
  at the limit 1 and not at 1.2. Three cells of type 1 leave it at 0.3, and leave the
  same voxel of substance 1 and the voxel (0,1,1) of substance 0 at 0; three cells of
  type -1 leave the voxel (1,1,1) of substance 1 at 0.3.
\<close>

theorem C3_produceSubstances_witness:
  "(0::int) < 2 \<and> unitField (\<lambda>_. 0) \<and> inUnitCube (1/2, 1/2, 1/2)
   \<and> inGrid 2 (voxelOf 2 (1/2, 1/2, 1/2))
   \<and> unitField (produceSubstances (\<lambda>_. 0) (\<lambda>_. (1/2, 1/2, 1/2)) (\<lambda>_. 1) 2 12)
   \<and> produceSubstances (\<lambda>_. 0) (\<lambda>_. (1/2, 1/2, 1/2)) (\<lambda>_. 1) 2 12 (0, 1, 1, 1) = 1
   \<and> produceSubstances (\<lambda>_. 0) (\<lambda>_. (1/2, 1/2, 1/2)) (\<lambda>_. 1) 2 3 (0, 1, 1, 1) = 3/10
   \<and> produceSubstances (\<lambda>_. 0) (\<lambda>_. (1/2, 1/2, 1/2)) (\<lambda>_. 1) 2 3 (1, 1, 1, 1) = 0
   \<and> produceSubstances (\<lambda>_. 0) (\<lambda>_. (1/2, 1/2, 1/2)) (\<lambda>_. - 1) 2 3 (1, 1, 1, 1) = 3/10
   \<and> produceSubstances (\<lambda>_. 0) (\<lambda>_. (1/2, 1/2, 1/2)) (\<lambda>_. 1) 2 3 (0, 0, 1, 1) = 0"
proof -
  let ?pos = "\<lambda>_::nat. (1/2, 1/2, 1/2) :: vec3"
  have h1: "(0::int) < 2" by simp
  have h2: "unitField (\<lambda>_. 0)" by (simp add: unitField_def)
  have h3: "\<forall>c<m. inUnitCube (?pos c)" for m by (simp add: inUnitCube_def)
  have h4: "inUnitCube (1/2, 1/2, 1/2)" by (simp add: inUnitCube_def)
  have v: "voxelOf 2 (1/2, 1/2, 1/2) = (1, 1, 1)"
    by (simp add: voxelOf_def voxelIndex_def)
  have s: "substanceOf 1 = 0" "substanceOf (- 1) = 1" by (simp_all add: substanceOf_def)
  note t12 = C3_produceSubstances[OF h1 h2 h3[of 12], where types = "\<lambda>_. 1"]
  note t3 = C3_produceSubstances[OF h1 h2 h3[of 3], where types = "\<lambda>_. 1"]
  note t3m = C3_produceSubstances[OF h1 h2 h3[of 3], where types = "\<lambda>_. - 1"]
  have g: "inGrid 2 (voxelOf 2 (1/2, 1/2, 1/2))" unfolding v by (simp add: inGrid_def)
  have u: "unitField (produceSubstances (\<lambda>_. 0) ?pos (\<lambda>_. 1) 2 12)" using t12 by blast
  have c12: "\<forall>k. produceSubstances (\<lambda>_. 0) ?pos (\<lambda>_. 1) 2 12 k =
      min 1 (0 + real (card {c. c < (12::nat) \<and> (substanceOf 1, voxelOf 2 (1/2, 1/2, 1/2)) = k}) * 0.1)"
    using t12 by blast
  have c3: "\<forall>k. produceSubstances (\<lambda>_. 0) ?pos (\<lambda>_. 1) 2 3 k =
      min 1 (0 + real (card {c. c < (3::nat) \<and> (substanceOf 1, voxelOf 2 (1/2, 1/2, 1/2)) = k}) * 0.1)"
    using t3 by blast
  have c3m: "\<forall>k. produceSubstances (\<lambda>_. 0) ?pos (\<lambda>_. - 1) 2 3 k =
      min 1 (0 + real (card {c. c < (3::nat) \<and> (substanceOf (- 1), voxelOf 2 (1/2, 1/2, 1/2)) = k}) * 0.1)"
    using t3m by blast
  have k: "{c. c < (m::nat)} = {..<m}" for m by auto
  have e1: "produceSubstances (\<lambda>_. 0) ?pos (\<lambda>_. 1) 2 12 (0, 1, 1, 1) = 1"
    using c12[rule_format, of "(0, 1, 1, 1)"] by (simp add: v s k)
  have e2: "produceSubstances (\<lambda>_. 0) ?pos (\<lambda>_. 1) 2 3 (0, 1, 1, 1) = 3/10"
    using c3[rule_format, of "(0, 1, 1, 1)"] by (simp add: v s k)
  have e3: "produceSubstances (\<lambda>_. 0) ?pos (\<lambda>_. 1) 2 3 (1, 1, 1, 1) = 0"
    using c3[rule_format, of "(1, 1, 1, 1)"] by (simp add: v s)
  have e4: "produceSubstances (\<lambda>_. 0) ?pos (\<lambda>_. - 1) 2 3 (1, 1, 1, 1) = 3/10"
    using c3m[rule_format, of "(1, 1, 1, 1)"] by (simp add: v s k)
  have e5: "produceSubstances (\<lambda>_. 0) ?pos (\<lambda>_. 1) 2 3 (0, 0, 1, 1) = 0"
    using c3[rule_format, of "(0, 0, 1, 1)"] by (simp add: v s)
  from h1 h2 h4 g u e1 e2 e3 e4 e5 show ?thesis by blast
qed


subsection \<open>runDiffusionStep\<close>

lemma addFrom_apply:
  "addFrom t Dc v nb F (sub, w) =
     F (sub, w) + (if sub < 2 \<and> w = v then flux t Dc sub v nb else 0)"
  by (cases "sub = 0"; cases "sub = 1") (auto simp: addFrom_def Let_def flux_def)

lemma diffuseVoxel_apply:
  "diffuseVoxel G Dc t i1 i2 i3 F (sub, w) =
     F (sub, w) + (if sub < 2 \<and> w = (i1, i2, i3) then netFlux G t Dc sub (i1, i2, i3) else 0)"
  by (simp add: diffuseVoxel_def Let_def addFrom_apply netFlux_def)

lemma fold_diffuse3:
  "distinct zs \<Longrightarrow>
   fold (\<lambda>i3. diffuseVoxel G Dc t i1 i2 i3) zs F (sub, j1, j2, j3) =
     F (sub, j1, j2, j3) +
     (if sub < 2 \<and> j1 = i1 \<and> j2 = i2 \<and> j3 \<in> set zs then netFlux G t Dc sub (j1, j2, j3) else 0)"
  by (induction zs arbitrary: F) (auto simp: diffuseVoxel_apply)

lemma fold_diffuse2:
  "distinct ys \<Longrightarrow> distinct zs \<Longrightarrow>
   fold (\<lambda>i2. fold (\<lambda>i3. diffuseVoxel G Dc t i1 i2 i3) zs) ys F (sub, j1, j2, j3) =
     F (sub, j1, j2, j3) +
     (if sub < 2 \<and> j1 = i1 \<and> j2 \<in> set ys \<and> j3 \<in> set zs then netFlux G t Dc sub (j1, j2, j3) else 0)"
  by (induction ys arbitrary: F) (auto simp: fold_diffuse3)

lemma fold_diffuse1:
  "distinct xs \<Longrightarrow> distinct ys \<Longrightarrow> distinct zs \<Longrightarrow>
   fold (\<lambda>i1. fold (\<lambda>i2. fold (\<lambda>i3. diffuseVoxel G Dc t i1 i2 i3) zs) ys) xs F (sub, j1, j2, j3) =
     F (sub, j1, j2, j3) +
     (if sub < 2 \<and> j1 \<in> set xs \<and> j2 \<in> set ys \<and> j3 \<in> set zs then netFlux G t Dc sub (j1, j2, j3) else 0)"
  by (induction xs arbitrary: F) (auto simp: fold_diffuse2)

lemma copyVoxel_apply:
  "copyVoxel F i1 i2 i3 tmp (sub, w) = (if sub < 2 \<and> w = (i1, i2, i3) then F (sub, w) else tmp (sub, w))"
  by (cases "sub = 0"; cases "sub = 1") (auto simp: copyVoxel_def)

lemma fold_copy3:
  "fold (\<lambda>i3. copyVoxel F i1 i2 i3) zs tmp (sub, j1, j2, j3) =
     (if sub < 2 \<and> j1 = i1 \<and> j2 = i2 \<and> j3 \<in> set zs then F (sub, j1, j2, j3) else tmp (sub, j1, j2, j3))"
  by (induction zs arbitrary: tmp) (auto simp: copyVoxel_apply)

lemma fold_copy2:
  "fold (\<lambda>i2. fold (\<lambda>i3. copyVoxel F i1 i2 i3) zs) ys tmp (sub, j1, j2, j3) =
     (if sub < 2 \<and> j1 = i1 \<and> j2 \<in> set ys \<and> j3 \<in> set zs then F (sub, j1, j2, j3) else tmp (sub, j1, j2, j3))"
  by (induction ys arbitrary: tmp) (auto simp: fold_copy3)

lemma fold_copy1:
  "fold (\<lambda>i1. fold (\<lambda>i2. fold (\<lambda>i3. copyVoxel F i1 i2 i3) zs) ys) xs tmp (sub, j1, j2, j3) =
     (if sub < 2 \<and> j1 \<in> set xs \<and> j2 \<in> set ys \<and> j3 \<in> set zs then F (sub, j1, j2, j3) else tmp (sub, j1, j2, j3))"
  by (induction xs arbitrary: tmp) (auto simp: fold_copy2)

lemma copyField_apply:
  "copyField G F tmp (sub, v) = (if sub < 2 \<and> inGrid G v then F (sub, v) else tmp (sub, v))"
  by (cases v) (auto simp: copyField_def fold_copy1 inGrid_def)

lemma netFlux_snapshot:
  assumes "sub < 2" "inGrid G v"
  shows "netFlux G (copyField G F tmp) Dc sub v = netFlux G F Dc sub v"
  using assms by (cases v) (auto simp: netFlux_def flux_def copyField_apply inGrid_def)

text \<open>
  Claim C4. The copy loops make \<^verbatim>\<open>tempConc\<close> equal to the field on every voxel of the grid,
  for both substances. After the step, the value of every voxel of the grid is its value
  before the step plus, for each of its six axis-aligned neighbours whose index lies in
  \<open>[0, G)\<close>, the difference between the neighbour's and its own value before the step,
  times \<open>Dc / 6\<close>; a neighbour outside the grid contributes nothing, and entries outside
  the grid are left as they are. Only values from before the step occur, whatever
  \<^verbatim>\<open>tempConc\<close> held before the copy.
\<close>

theorem C4_runDiffusionStep:
  "copyField G F tmp (sub, v) = (if sub < 2 \<and> inGrid G v then F (sub, v) else tmp (sub, v))
   \<and> runDiffusionStepFrom tmp F G Dc (sub, v) =
      (if sub < 2 \<and> inGrid G v then F (sub, v) + netFlux G F (Dc / 6) sub v else F (sub, v))
   \<and> runDiffusionStep F G Dc (sub, v) = runDiffusionStepFrom tmp F G Dc (sub, v)"
proof -
  have a: "runDiffusionStepFrom t0 F G Dc (sub, v) =
      (if sub < 2 \<and> inGrid G v then F (sub, v) + netFlux G F (Dc / 6) sub v else F (sub, v))" for t0
    by (cases v) (auto simp: runDiffusionStepFrom_def Let_def fold_diffuse1 netFlux_snapshot inGrid_def)
  show ?thesis by (simp add: copyField_apply a runDiffusionStep_def)
qed

subsection \<open>cellMovementAndDuplication\<close>

lemma getNorm_nonneg: "0 \<le> getNorm a"
  by (cases a) (simp add: getNorm_def)


lemma moveCell_fields:
  "pathTraveled (moveCell rnd c s) = (pathTraveled s)(c := pathTraveled s c + 0.1)"
  "numberDivisions (moveCell rnd c s) = numberDivisions s"
  "typesAll (moveCell rnd c s) = typesAll s"
  "calls (moveCell rnd c s) = calls s + 3"
  "capacity (moveCell rnd c s) = capacity s"
  "Conc (moveCell rnd c s) = Conc s"
  "currMov (moveCell rnd c s) = currMov s"
  "n (moveCell rnd c s) = n s"
  "posAll (moveCell rnd c s) =
     (posAll s)(c := vadd (posAll s c) (vscale 0.1 (unitVec (drawOffset rnd (calls s)))))"
  by (auto simp: moveCell_def Let_def touch_def vadd_def vscale_def unitVec_def split: prod.splits)

lemma divideCell_fields:
  "fst (divideCell rnd pT c (cur, s)) = cur + 1"
  "pathTraveled (snd (divideCell rnd pT c (cur, s))) = (pathTraveled s)(c := pathTraveled s c - pT)"
  "numberDivisions (snd (divideCell rnd pT c (cur, s))) =
     (numberDivisions s)(c := numberDivisions s c + 1, cur := numberDivisions s c + 1)"
  "typesAll (snd (divideCell rnd pT c (cur, s))) = (typesAll s)(cur := - typesAll s c)"
  "calls (snd (divideCell rnd pT c (cur, s))) = calls s + 3"
  "capacity (snd (divideCell rnd pT c (cur, s))) = capacity s"
  "Conc (snd (divideCell rnd pT c (cur, s))) = Conc s"
  "currMov (snd (divideCell rnd pT c (cur, s))) = currMov s"
  "n (snd (divideCell rnd pT c (cur, s))) = n s"
  "posAll (snd (divideCell rnd pT c (cur, s))) =
     (posAll s)(cur := vadd (posAll s c) (vscale 0.05 (unitVec (drawOffset rnd (calls s)))))"
  by (auto simp: divideCell_def Let_def touch_def vadd_def vscale_def unitVec_def split: prod.splits)

lemma growCell_eq:
  "growCell rnd pT dT c (cur, s) =
     (if divides pT dT c s then divideCell rnd pT c (cur, moveCell rnd c s)
      else (cur, moveCell rnd c s))"
  by (simp add: growCell_def Let_def divides_def moveCell_fields)


lemma getNorm_axis: "getNorm (a, 0, 0) = \<bar>a\<bar>"
  by (simp add: getNorm_def)


subsection \<open>runDiffusionClusterStep\<close>





lemma index_spread:
  assumes "2 \<le> G" "0 \<le> i" "i < G"
  shows "upIndex G i - downIndex i = 1 \<or> upIndex G i - downIndex i = 2"
  using assms by (auto simp: upIndex_def downIndex_def min_def max_def)

lemma index_spread_one:
  assumes "0 \<le> i" "i < 1"
  shows "upIndex 1 i - downIndex i = 0"
  using assms by (auto simp: upIndex_def downIndex_def min_def max_def)

lemma axis_denominator:
  assumes "2 \<le> G" "0 \<le> x"
  shows "1 / real_of_int G * real_of_int (upIndex G (voxelIndex G x) - downIndex (voxelIndex G x)) \<noteq> 0"
proof -
  have g: "0 < G" using assms by simp
  from voxelIndex_inGrid[OF g assms(2)] index_spread[OF assms(1)]
  have "upIndex G (voxelIndex G x) - downIndex (voxelIndex G x) \<noteq> 0" by fastforce
  then show ?thesis using g by simp
qed

lemma axis_denominator_one:
  assumes "0 \<le> x"
  shows "upIndex 1 (voxelIndex 1 x) - downIndex (voxelIndex 1 x) = 0"
proof -
  have "(0::int) < 1" by simp
  from voxelIndex_inGrid[OF this assms] show ?thesis by (simp add: index_spread_one)
qed

text \<open>
  Claim C8 says that for every accepted grid resolution, that is every resolution above
  zero, and every position of the unit cube the three divisors of the gradient are not
  zero. At the resolution 1, which is accepted, they are all zero at the centre of the
  cube: the claim fails there.
\<close>

theorem C8_gradDenominators_counterexample:
  "(0::int) < 1 \<and> inUnitCube (1/2, 1/2, 1/2) \<and> gradDenominators 1 (1/2, 1/2, 1/2) = (0, 0, 0)"
  by (simp add: inUnitCube_def gradDenominators_def voxelOf_def voxelIndex_def upIndex_def downIndex_def)

text \<open>
  Claim C8, amended. For every position of the unit cube, the three divisors of the
  gradient are not zero when the grid resolution is at least 2, and they are all zero
  when the resolution is 1.
\<close>

theorem C8_gradDenominators:
  assumes "inUnitCube q"
  shows "(2 \<le> G \<longrightarrow> nonzero3 (gradDenominators G q))
       \<and> gradDenominators 1 q = (0, 0, 0)"
proof -
  obtain x y z where q: "q = (x, y, z)" by (cases q)
  have p: "0 \<le> x" "0 \<le> y" "0 \<le> z" using assms by (simp_all add: q inUnitCube_def)
  have a: "nonzero3 (gradDenominators G q)" if "2 \<le> G"
    using axis_denominator[OF that p(1)] axis_denominator[OF that p(2)] axis_denominator[OF that p(3)]
    by (simp add: q gradDenominators_def voxelOf_def nonzero3_def Let_def)
  have b: "gradDenominators 1 q = (0, 0, 0)"
    using axis_denominator_one[OF p(1)] axis_denominator_one[OF p(2)] axis_denominator_one[OF p(3)]
    by (simp add: q gradDenominators_def voxelOf_def)
  from a b show ?thesis by simp
qed

theorem C8_gradDenominators_witness:
  "inUnitCube (1/4, 1/4, 1) \<and> nonzero3 (gradDenominators 2 (1/4, 1/4, 1))
   \<and> gradDenominators 2 (1/4, 1/4, 1) = (1/2, 1/2, 1/2)
   \<and> gradDenominators 3 (1/2, 1/2, 1/2) = (2/3, 2/3, 2/3)"
proof -
  have h: "inUnitCube (1/4, 1/4, 1)" by (simp add: inUnitCube_def)
  from C8_gradDenominators[OF h, of 2] have "nonzero3 (gradDenominators 2 (1/4, 1/4, 1))" by simp
  moreover have "gradDenominators 2 (1/4, 1/4, 1) = (1/2, 1/2, 1/2)"
    by (simp add: gradDenominators_def voxelOf_def voxelIndex_def upIndex_def downIndex_def)
  moreover have "gradDenominators 3 (1/2, 1/2, 1/2) = (2/3, 2/3, 2/3)"
    by (simp add: gradDenominators_def voxelOf_def voxelIndex_def upIndex_def downIndex_def)
  ultimately show ?thesis using h by simp
qed

subsection \<open>getCriterion\<close>

lemma fold_selectCell:
  "fold (selectCell m pos types) is acc =
     acc @ map (\<lambda>i. (pos i, types i)) (filter (\<lambda>i. inSubVol m (pos i)) is)"
  by (induction "is" arbitrary: acc) (simp_all add: selectCell_def)

lemma subVolume_eq: "subVolume pos types cnt targetN = centralCells pos types cnt targetN"
  by (simp add: subVolume_def fold_selectCell centralCells_def subVolMax_def)

lemma fold_countPair:
  "fold (countPair sub r i) js (a, b, c) =
     (a + length (filter (\<lambda>j. cellDistance (sub ! i) (sub ! j) < r) js),
      b + length (filter (\<lambda>j. cellDistance (sub ! i) (sub ! j) < r \<and> \<not> differentType sub (i, j)) js),
      c + length (filter (\<lambda>j. cellDistance (sub ! i) (sub ! j) < r \<and> differentType sub (i, j)) js))"
  by (induction js arbitrary: a b c) (simp_all add: countPair_def Let_def differentType_def)

lemma fold_countPair_rows:
  "fold (\<lambda>i. fold (countPair sub r i) (f i)) is (a, b, c) =
     (a + length (filter (\<lambda>(i, j). cellDistance (sub ! i) (sub ! j) < r)
                    (concat (map (\<lambda>i. map (Pair i) (f i)) is))),
      b + length (filter (\<lambda>(i, j). cellDistance (sub ! i) (sub ! j) < r \<and> \<not> differentType sub (i, j))
                    (concat (map (\<lambda>i. map (Pair i) (f i)) is))),
      c + length (filter (\<lambda>(i, j). cellDistance (sub ! i) (sub ! j) < r \<and> differentType sub (i, j))
                    (concat (map (\<lambda>i. map (Pair i) (f i)) is))))"
  by (induction "is" arbitrary: a b c) (simp_all add: fold_countPair comp_def)

lemma distinct_rows:
  "distinct is \<Longrightarrow> (\<And>i. distinct (f i)) \<Longrightarrow> distinct (concat (map (\<lambda>i. map (Pair i) (f i)) is))"
  by (induction "is") (auto simp: distinct_map inj_on_def)

lemma distinct_pairsBelow: "distinct (pairsBelow m)"
  unfolding pairsBelow_def by (rule distinct_rows) simp_all

lemma set_pairsBelow: "set (pairsBelow m) = {(i, j). i < j \<and> j < m}"
  by (force simp: pairsBelow_def)

lemma count_card:
  "length (filter P (pairsBelow m)) = card {ij \<in> {(i, j). i < j \<and> j < m}. P ij}"
proof -
  have "length (filter P (pairsBelow m)) = card ({x. P x} \<inter> set (pairsBelow m))"
    by (rule distinct_length_filter[OF distinct_pairsBelow])
  also have "{x. P x} \<inter> set (pairsBelow m) = {ij \<in> {(i, j). i < j \<and> j < m}. P ij}"
    by (auto simp: set_pairsBelow)
  finally show ?thesis .
qed

lemma countPairs_eq:
  "countPairs sub r =
     (card (closePairs sub r),
      card {ij \<in> closePairs sub r. \<not> differentType sub ij},
      card {ij \<in> closePairs sub r. differentType sub ij})"
proof -
  define P1 where "P1 = (\<lambda>(i, j). cellDistance (sub ! i) (sub ! j) < r)"
  define P2 where "P2 = (\<lambda>(i, j). cellDistance (sub ! i) (sub ! j) < r \<and> \<not> differentType sub (i, j))"
  define P3 where "P3 = (\<lambda>(i, j). cellDistance (sub ! i) (sub ! j) < r \<and> differentType sub (i, j))"
  have c: "countPairs sub r =
     (length (filter P1 (pairsBelow (length sub))), length (filter P2 (pairsBelow (length sub))),
      length (filter P3 (pairsBelow (length sub))))"
    by (simp add: countPairs_def fold_countPair_rows pairsBelow_def P1_def P2_def P3_def)
  have s1: "{ij \<in> {(i, j). i < j \<and> j < length sub}. P1 ij} = closePairs sub r"
    by (auto simp: closePairs_def P1_def)
  have s2: "{ij \<in> {(i, j). i < j \<and> j < length sub}. P2 ij} = {ij \<in> closePairs sub r. \<not> differentType sub ij}"
    by (auto simp: closePairs_def P2_def)
  have s3: "{ij \<in> {(i, j). i < j \<and> j < length sub}. P3 ij} = {ij \<in> closePairs sub r. differentType sub ij}"
    by (auto simp: closePairs_def P3_def)
  show ?thesis
    unfolding c count_card s1 s2 s3 ..
qed

text \<open>
  Claim C7. For a positive target, \<^verbatim>\<open>getCriterion\<close> returns false exactly when, among the
  cells whose three coordinates differ from 0.5 by less than half the cube root of
  target over count, (a) there are fewer than a quarter of the target, or (b) more than
  four times the target, or (c) the number of close pairs of different type divided by
  one more than the number of close pairs exceeds 0.1, or (d) the number of close pairs
  of the same type divided by the number of those cells is below 100; a close pair is a
  pair of those cells at a distance below the range.
\<close>

theorem C7_getCriterion:
  assumes "0 < targetN"
  shows "getCriterion pos types cnt r targetN = False \<longleftrightarrow>
     (let sub = centralCells pos types cnt targetN;
          nrCellsSubVol = length sub;
          nrClose = card (closePairs sub r);
          diffTypeClose = card {ij \<in> closePairs sub r. differentType sub ij};
          sameTypeClose = card {ij \<in> closePairs sub r. \<not> differentType sub ij}
      in real nrCellsSubVol < 0.25 * real_of_int targetN
       \<or> real nrCellsSubVol > 4 * real_of_int targetN
       \<or> real diffTypeClose / (real nrClose + 1) > 0.1
       \<or> real sameTypeClose / real nrCellsSubVol < 100)"
proof -
  have t: "0 < real_of_int targetN" using assms by simp
  have a: "(x / real_of_int targetN < 0.25) = (x < 0.25 * real_of_int targetN)" for x
    using t by (simp add: field_simps)
  have b: "(x / real_of_int targetN > 4) = (x > 4 * real_of_int targetN)" for x
    using t by (simp add: field_simps)
  show ?thesis
    unfolding getCriterion_def subVolume_eq Let_def countPairs_eq a b
    by auto
qed


lemma pairs_Suc:
  "{(i, j). i < j \<and> j < Suc m} = {(i, j). i < j \<and> j < m} \<union> (\<lambda>i. (i, m)) ` {..<m}"
  by (auto simp: less_Suc_eq)

lemma finite_pairs: "finite {(i, j). i < j \<and> j < (m::nat)}"
  by (rule finite_subset[of _ "{..<m} \<times> {..<m}"]) auto

lemma card_pairs: "2 * card {(i, j). i < j \<and> j < (m::nat)} = m * (m - 1)"
proof (induction m)
  case 0
  then show ?case by simp
next
  case (Suc m)
  have d: "{(i, j). i < j \<and> j < m} \<inter> (\<lambda>i. (i, m)) ` {..<m} = {}" by auto
  have c: "card ((\<lambda>i. (i, m)) ` {..<m}) = m"
    by (simp add: card_image inj_on_def)
  have "card {(i, j). i < j \<and> j < Suc m} = card {(i, j). i < j \<and> j < m} + m"
    unfolding pairs_Suc using card_Un_disjoint[OF finite_pairs _ d] c by simp
  then show ?case using Suc.IH by (cases m) simp_all
qed

theorem C7_getCriterion_witness:
  "getCriterion (\<lambda>_. (1/2, 1/2, 1/2)) (\<lambda>_. 1) 1 1 1 = False
   \<and> getCriterion (\<lambda>_. (1/2, 1/2, 1/2)) (\<lambda>_. 1) 201 1 201 = True
   \<and> getCriterion (\<lambda>_. (1/2, 1/2, 1/2)) (\<lambda>_. 1) 1 1 8 = False"
proof -
  let ?pos = "\<lambda>_::nat. (1/2, 1/2, 1/2) :: vec3"
  let ?one = "\<lambda>_::nat. 1::int"
  let ?cells = "\<lambda>ty. map (\<lambda>i. ((1/2, 1/2, 1/2) :: vec3, ty i :: int)) [0..<201]"
  let ?all = "{(i, j). i < j \<and> j < (201::nat)}"
  have cc: "centralCells ?pos ty 201 201 = ?cells ty" for ty
    by (simp add: centralCells_def inSubVol_def)
  have cp: "closePairs (?cells ty) 1 = ?all" for ty
    by (auto simp: closePairs_def cellDistance_def getL2Distance_def)
  have k: "card ?all = 20100"
    using card_pairs[of 201] by simp
  have cc1: "centralCells ?pos ?one 1 1 = [((1/2, 1/2, 1/2), 1)]"
    by (simp add: centralCells_def inSubVol_def)
  have cp1: "closePairs [x] 1 = {}" for x
    by (auto simp: closePairs_def)
  have p1: "(0::int) < 1" and p201: "(0::int) < 201" by simp_all
  have a: "getCriterion ?pos ?one 1 1 1 = False"
    using C7_getCriterion[OF p1, of ?pos ?one 1 1, unfolded Let_def cc1 cp1]
    by simp
  have nd: "{ij \<in> ?all. differentType (?cells ?one) ij} = {}"
    by (auto simp: differentType_def)
  have sd: "{ij \<in> ?all. \<not> differentType (?cells ?one) ij} = ?all"
    by (auto simp: differentType_def)
  have b: "getCriterion ?pos ?one 201 1 201 = True"
    using C7_getCriterion[OF p201, of ?pos ?one 201 1, unfolded Let_def cc cp nd sd k]
    by simp
  have r8: "root 3 8 = (2::real)"
  proof -
    have "root 3 (2 ^ 3) = (2::real)" by (rule real_root_power_cancel) simp_all
    then show ?thesis by simp
  qed
  have cc8: "centralCells ?pos ?one 1 8 = [((1/2, 1/2, 1/2), 1)]"
    by (simp add: centralCells_def inSubVol_def r8)
  have p8: "(0::int) < 8" by simp
  have c: "getCriterion ?pos ?one 1 1 8 = False"
    using C7_getCriterion[OF p8, of ?pos ?one 1 1, unfolded Let_def cc8 cp1]
    by simp
  from a b c show ?thesis by simp
qed

subsection \<open>Initialisation\<close>

lemma fold_initCell_fields:
  "posAll (fold initCell cs s) c = (if c \<in> set cs then (1/2, 1/2, third (posAll s c)) else posAll s c)"
  "currMov (fold initCell cs s) c = (if c \<in> set cs then (0, 0, third (currMov s c)) else currMov s c)"
  "pathTraveled (fold initCell cs s) c = (if c \<in> set cs then 0 else pathTraveled s c)"
  "numberDivisions (fold initCell cs s) = numberDivisions s"
  "typesAll (fold initCell cs s) = typesAll s"
  "Conc (fold initCell cs s) = Conc s"
  "capacity (fold initCell cs s) = capacity s"
  "oob (fold initCell cs s) = oob s"
  "calls (fold initCell cs s) = calls s"
  "n (fold initCell cs s) = n s"
  by (induction cs arbitrary: s; auto simp: initCell_def third_def split: prod.splits)+

lemma touch_fields:
  "posAll (touch i s) = posAll s" "currMov (touch i s) = currMov s"
  "pathTraveled (touch i s) = pathTraveled s" "numberDivisions (touch i s) = numberDivisions s"
  "typesAll (touch i s) = typesAll s" "Conc (touch i s) = Conc s"
  "capacity (touch i s) = capacity s" "calls (touch i s) = calls s" "n (touch i s) = n s"
  "oob (touch i s) = (if i < capacity s \<or> oob s \<noteq> None then oob s else Some i)"
  by (simp_all add: touch_def)

lemma initSim_fields:
  "posAll (initSim p raw) c =
     (if c < finalNumberCells p then (1/2, 1/2, third (posAll raw c)) else posAll raw c)"
  "currMov (initSim p raw) c =
     (if c < finalNumberCells p then (0, 0, third (currMov raw c)) else currMov raw c)"
  "pathTraveled (initSim p raw) c = (if c < finalNumberCells p then 0 else pathTraveled raw c)"
  "numberDivisions (initSim p raw) = (numberDivisions raw)(0 := 0)"
  "typesAll (initSim p raw) = (typesAll raw)(0 := 1)"
  "capacity (initSim p raw) = finalNumberCells p"
  "oob (initSim p raw) = (if 0 < finalNumberCells p then None else Some 0)"
  "calls (initSim p raw) = 0"
  "n (initSim p raw) = 1"
  by (simp_all add: initSim_def Let_def fold_initCell_fields touch_fields)

lemma produceSubstances_one:
  "produceSubstances F pos types G (Suc 0) = produceCell G pos types 0 F"
  by (simp add: produceSubstances_def)

text \<open>
  Claim C9. For every cell \<open>c\<close> of the allocation, the initialisation sets the coordinates
  0 and 1 of the position to 0.5 and the components 0 and 1 of the movement vector to 0,
  and leaves the component 2 of both as the storage held it when allocated. Phase 1
  starts with one active cell; the first call of \<^verbatim>\<open>produceSubstances\<close> treats the cell 0
  only and takes its third voxel index from that stored value, and the first growth
  step adds the third component of its displacement to that stored value. So the third
  coordinate of the seed cell is whatever the storage held, in the unit interval or not.
\<close>

theorem C9_initSim:
  assumes "c < finalNumberCells p"
  shows "posAll (initSim p raw) c = (0.5, 0.5, third (posAll raw c))
       \<and> currMov (initSim p raw) c = (0, 0, third (currMov raw c))
       \<and> n (initSim p raw) = 1
       \<and> voxelOf (L p) (posAll (initSim p raw) 0) =
            (voxelIndex (L p) 0.5, voxelIndex (L p) 0.5, voxelIndex (L p) (third (posAll raw 0)))
       \<and> produceSubstances (Conc (initSim p raw)) (posAll (initSim p raw)) (typesAll (initSim p raw))
            (L p) (n (initSim p raw)) =
          produceCell (L p) (posAll (initSim p raw)) (typesAll (initSim p raw)) 0 (Conc (initSim p raw))
       \<and> third (posAll (moveCell rnd 0 (initSim p raw)) 0) =
            third (posAll raw 0)
            + 0.1 * third (drawOffset rnd 0) / getNorm (drawOffset rnd 0)"
proof -
  have z: "0 < finalNumberCells p" using assms by simp
  have a: "posAll (initSim p raw) c = (0.5, 0.5, third (posAll raw c))"
    and b: "currMov (initSim p raw) c = (0, 0, third (currMov raw c))"
    using assms by (simp_all add: initSim_fields)
  have s: "posAll (initSim p raw) 0 = (0.5, 0.5, third (posAll raw 0))"
    using z by (simp add: initSim_fields)
  have d: "voxelOf (L p) (posAll (initSim p raw) 0) =
            (voxelIndex (L p) 0.5, voxelIndex (L p) 0.5, voxelIndex (L p) (third (posAll raw 0)))"
    unfolding s by (simp add: voxelOf_def)
  have e: "produceSubstances (Conc (initSim p raw)) (posAll (initSim p raw)) (typesAll (initSim p raw))
            (L p) (n (initSim p raw)) =
          produceCell (L p) (posAll (initSim p raw)) (typesAll (initSim p raw)) 0 (Conc (initSim p raw))"
    by (simp add: initSim_fields(9) produceSubstances_one)
  have f: "third (posAll (moveCell rnd 0 (initSim p raw)) 0) =
            third (posAll raw 0) + 0.1 * third (drawOffset rnd 0) / getNorm (drawOffset rnd 0)"
    unfolding moveCell_fields s initSim_fields(8)
    by (cases "drawOffset rnd 0") (simp add: vadd_def vscale_def unitVec_def third_def)
  from a b d e f show ?thesis by (simp add: initSim_fields(9))
qed

theorem C9_initSim_witness:
  "posAll (initSim (exampleParams 2 1 1) (rawSim 7)) 0 = (1/2, 1/2, 7)
   \<and> \<not> inUnitCube (posAll (initSim (exampleParams 2 1 1) (rawSim 7)) 0)
   \<and> posAll (initSim (exampleParams 2 1 1) (rawSim (- 1))) 0 = (1/2, 1/2, - 1)
   \<and> voxelOf 2 (posAll (initSim (exampleParams 2 1 1) (rawSim (- 1))) 0) = (1, 1, - 2)
   \<and> \<not> inGrid 2 (voxelOf 2 (posAll (initSim (exampleParams 2 1 1) (rawSim (- 1))) 0))"
proof -
  have h: "0 < finalNumberCells (exampleParams 2 1 1)" by (simp add: exampleParams_def)
  have a: "posAll (initSim (exampleParams 2 1 1) (rawSim z)) 0 = (1/2, 1/2, z)" for z
    using C9_initSim[OF h, of "rawSim z"] by (simp add: rawSim_def third_def)
  show ?thesis
    unfolding a by (simp add: inUnitCube_def voxelOf_def voxelIndex_def inGrid_def)
qed

subsection \<open>The growth step on the bookkeeping\<close>

lemma oob_moveCell: "oob (moveCell rnd c s) = touchBook (capacity s) c (oob s)"
  by (auto simp: moveCell_def Let_def touch_def touchBook_def split: prod.splits)

lemma oob_divideCell:
  "oob (snd (divideCell rnd pT c (cur, s))) = touchBook (capacity s) cur (oob s)"
  by (auto simp: divideCell_def Let_def touch_def touchBook_def split: prod.splits)

lemma capacity_growCell: "capacity (snd (growCell rnd pT dT c (cur, s))) = capacity s"
  by (simp add: growCell_eq divideCell_fields moveCell_fields)

lemma n_growCell: "n (snd (growCell rnd pT dT c (cur, s))) = n s"
  by (simp add: growCell_eq divideCell_fields moveCell_fields)

lemma bookOf_growCell:
  "bookOf (growCell rnd pT dT c (cur, s)) = growBook (capacity s) pT dT c (bookOf (cur, s))"
proof (cases "divides pT dT c s")
  case True
  then have d: "numberDivisions s c < dT \<and> pathTraveled s c + 0.1 > pT" by (simp add: divides_def)
  obtain cur' s' where g: "divideCell rnd pT c (cur, moveCell rnd c s) = (cur', s')"
    by (cases "divideCell rnd pT c (cur, moveCell rnd c s)")
  have f: "cur' = fst (divideCell rnd pT c (cur, moveCell rnd c s))"
    "s' = snd (divideCell rnd pT c (cur, moveCell rnd c s))" using g by simp_all
  show ?thesis
    using True d
    by (simp add: growCell_eq g bookOf_def growBook_def)
       (simp add: f divideCell_fields moveCell_fields oob_divideCell oob_moveCell)
next
  case False
  then have d: "\<not> (numberDivisions s c < dT \<and> pathTraveled s c + 0.1 > pT)" by (simp add: divides_def)
  show ?thesis
    using False d by (simp add: growCell_eq bookOf_def growBook_def moveCell_fields oob_moveCell)
qed

lemma fold_growCell_book:
  "bookOf (fold (growCell rnd pT dT) cs (cur, s)) = fold (growBook (capacity s) pT dT) cs (bookOf (cur, s))
   \<and> capacity (snd (fold (growCell rnd pT dT) cs (cur, s))) = capacity s
   \<and> n (snd (fold (growCell rnd pT dT) cs (cur, s))) = n s"
proof (induction cs arbitrary: cur s)
  case Nil
  then show ?case by simp
next
  case (Cons c cs)
  obtain cur1 s1 where g: "growCell rnd pT dT c (cur, s) = (cur1, s1)"
    by (cases "growCell rnd pT dT c (cur, s)")
  have c1: "capacity s1 = capacity s" using capacity_growCell[of rnd pT dT c cur s] g by simp
  have n1: "n s1 = n s" using n_growCell[of rnd pT dT c cur s] g by simp
  have b1: "bookOf (cur1, s1) = growBook (capacity s) pT dT c (bookOf (cur, s))"
    using bookOf_growCell[of rnd pT dT c cur s] g by simp
  show ?case using Cons.IH[of cur1 s1] by (simp add: g c1 n1 b1)
qed

lemma growBook_mono: "fst b \<le> fst (growBook cap pT dT c b)"
  by (cases b) (simp add: growBook_def)

lemma fold_growBook_mono: "fst b \<le> fst (fold (growBook cap pT dT) cs b)"
proof (induction cs arbitrary: b)
  case Nil
  then show ?case by simp
next
  case (Cons c cs)
  have "fst b \<le> fst (growBook cap pT dT c b)" by (rule growBook_mono)
  also have "\<dots> \<le> fst (fold (growBook cap pT dT) cs (growBook cap pT dT c b))" by (rule Cons.IH)
  finally show ?case by simp
qed

text \<open>Entries of cells that are not treated, and are not new, stay.\<close>

lemma fold_growBook_untouched:
  assumes "x \<notin> set cs" "x < cur"
  shows "(case fold (growBook cap pT dT) cs (cur, path, divs, ob) of
           (cur', path', divs', ob') \<Rightarrow> path' x = path x \<and> divs' x = divs x)"
  using assms
proof (induction cs arbitrary: cur path divs ob)
  case Nil
  then show ?case by simp
next
  case (Cons c cs)
  obtain cur1 path1 divs1 ob1 where g: "growBook cap pT dT c (cur, path, divs, ob) = (cur1, path1, divs1, ob1)"
    by (cases "growBook cap pT dT c (cur, path, divs, ob)")
  have xc: "x \<noteq> c" "x \<notin> set cs" using Cons.prems by auto
  have k: "path1 x = path x \<and> divs1 x = divs x \<and> cur \<le> cur1"
    using g xc Cons.prems(2) by (auto simp: growBook_def split: if_splits)
  then have "x < cur1" using Cons.prems(2) by simp
  from Cons.IH[OF xc(2) this, of path1 divs1 ob1] k show ?case by (simp add: g)
qed

lemma kraft_divide:
  assumes k: "kraft K cur divs" and c: "c < cur" and d: "divs c < int K"
  shows "kraft K (cur + 1) (divs(c := divs c + 1, cur := divs c + 1))"
proof -
  let ?w = "\<lambda>e::int. (2::nat) ^ (K - nat e)"
  let ?divs' = "divs(c := divs c + 1, cur := divs c + 1)"
  have d0: "0 \<le> divs c" using k c by (simp add: kraft_def)
  have half: "?w (divs c) = 2 * ?w (divs c + 1)"
  proof -
    have "K - nat (divs c) = Suc (K - nat (divs c + 1))" using d d0 by linarith
    then show ?thesis by simp
  qed
  have fin: "finite {..<cur}" by simp
  have cin: "c \<in> {..<cur}" using c by simp
  have old: "(\<Sum>i<cur. ?w (divs i)) = ?w (divs c) + (\<Sum>i\<in>{..<cur} - {c}. ?w (divs i))"
    by (rule sum.remove[OF fin cin])
  have new: "(\<Sum>i<cur. ?w (?divs' i)) = ?w (?divs' c) + (\<Sum>i\<in>{..<cur} - {c}. ?w (?divs' i))"
    by (rule sum.remove[OF fin cin])
  have same: "(\<Sum>i\<in>{..<cur} - {c}. ?w (?divs' i)) = (\<Sum>i\<in>{..<cur} - {c}. ?w (divs i))"
    by (rule sum.cong) auto
  have atc: "?divs' c = divs c + 1" using c by simp
  have "(\<Sum>i<cur + 1. ?w (?divs' i)) = (\<Sum>i<cur. ?w (?divs' i)) + ?w (?divs' cur)" by simp
  also have "\<dots> = ?w (divs c + 1) + (\<Sum>i\<in>{..<cur} - {c}. ?w (divs i)) + ?w (divs c + 1)"
    unfolding new same atc by simp
  also have "\<dots> = (\<Sum>i<cur. ?w (divs i))" unfolding old half by simp
  finally have s: "(\<Sum>i<cur + 1. ?w (?divs' i)) = 2 ^ K" using k by (simp add: kraft_def)
  have r: "\<forall>i. i < cur + 1 \<longrightarrow> 0 \<le> ?divs' i \<and> ?divs' i \<le> int K"
    using k d d0 by (auto simp: kraft_def)
  from r s show ?thesis unfolding kraft_def by blast
qed

lemma growBook_kraft:
  assumes "kraft K cur divs" "c < cur"
  shows "(case growBook cap pT (int K) c (cur, path, divs, ob) of
           (cur', path', divs', ob') \<Rightarrow> kraft K cur' divs')"
  using assms kraft_divide[OF assms(1,2)] by (simp add: growBook_def)

lemma fold_growBook_kraft:
  assumes "kraft K cur divs" "\<forall>c\<in>set cs. c < cur"
  shows "(case fold (growBook cap pT (int K)) cs (cur, path, divs, ob) of
           (cur', path', divs', ob') \<Rightarrow> kraft K cur' divs')"
  using assms
proof (induction cs arbitrary: cur path divs ob)
  case Nil
  then show ?case by simp
next
  case (Cons c cs)
  obtain cur1 path1 divs1 ob1 where g: "growBook cap pT (int K) c (cur, path, divs, ob) = (cur1, path1, divs1, ob1)"
    by (cases "growBook cap pT (int K) c (cur, path, divs, ob)")
  have c: "c < cur" using Cons.prems(2) by simp
  have k1: "kraft K cur1 divs1" using growBook_kraft[OF Cons.prems(1) c, of cap pT path ob] g by simp
  have "cur \<le> cur1" using growBook_mono[of "(cur, path, divs, ob)" cap pT "int K" c] g by simp
  then have b: "\<forall>c\<in>set cs. c < cur1" using Cons.prems(2) by auto
  from Cons.IH[OF k1 b, of path1 ob1] show ?case by (simp add: g)
qed

text \<open>A cell that is ready to divide makes the count grow.\<close>

lemma fold_growBook_ready:
  assumes "x \<in> set cs" "divs x < dT" "path x + 0.1 > pT" "\<forall>c\<in>set cs. c < cur"
  shows "cur < fst (fold (growBook cap pT dT) cs (cur, path, divs, ob))"
  using assms
proof (induction cs arbitrary: cur path divs ob)
  case Nil
  then show ?case by simp
next
  case (Cons c cs)
  obtain cur1 path1 divs1 ob1 where g: "growBook cap pT dT c (cur, path, divs, ob) = (cur1, path1, divs1, ob1)"
    by (cases "growBook cap pT dT c (cur, path, divs, ob)")
  have m: "cur1 \<le> fst (fold (growBook cap pT dT) cs (cur1, path1, divs1, ob1))"
    using fold_growBook_mono[of "(cur1, path1, divs1, ob1)"] by simp
  show ?case
  proof (cases "cur < cur1")
    case True
    then show ?thesis using m by (simp add: g)
  next
    case False
    then have nd: "\<not> (divs c < dT \<and> path c + 0.1 > pT)"
      using g by (auto simp: growBook_def split: if_splits)
    then have xc: "x \<noteq> c" using Cons.prems(2,3) by auto
    then have xin: "x \<in> set cs" using Cons.prems(1) by simp
    have e: "cur1 = cur" "divs1 = divs" "path1 = path(c := path c + 0.1)"
      using g nd by (auto simp: growBook_def)
    have p: "divs1 x < dT" "path1 x + 0.1 > pT" "\<forall>c\<in>set cs. c < cur1"
      using Cons.prems xc by (simp_all add: e)
    have "cur1 < fst (fold (growBook cap pT dT) cs (cur1, path1, divs1, ob1))"
      using Cons.IH[of divs1 path1 cur1 ob1] xin p by blast
    then show ?thesis by (simp add: g e(1))
  qed
qed

text \<open>When the count does not grow, every treated cell has only travelled.\<close>

lemma fold_growBook_still:
  assumes "distinct cs" "\<forall>c\<in>set cs. c < cur"
    and "fst (fold (growBook cap pT dT) cs (cur, path, divs, ob)) = cur"
  shows "(case fold (growBook cap pT dT) cs (cur, path, divs, ob) of
           (cur', path', divs', ob') \<Rightarrow> divs' = divs \<and> (\<forall>x\<in>set cs. path' x = path x + 0.1))"
  using assms
proof (induction cs arbitrary: path ob)
  case Nil
  then show ?case by simp
next
  case (Cons c cs)
  obtain cur1 path1 divs1 ob1 where g: "growBook cap pT dT c (cur, path, divs, ob) = (cur1, path1, divs1, ob1)"
    by (cases "growBook cap pT dT c (cur, path, divs, ob)")
  have m: "cur1 \<le> fst (fold (growBook cap pT dT) cs (cur1, path1, divs1, ob1))"
    using fold_growBook_mono[of "(cur1, path1, divs1, ob1)"] by simp
  have le: "cur \<le> cur1" using growBook_mono[of "(cur, path, divs, ob)" cap pT dT c] g by simp
  have fin: "fst (fold (growBook cap pT dT) cs (cur1, path1, divs1, ob1)) = cur"
    using Cons.prems(3) by (simp add: g)
  have c1: "cur1 = cur" using m le fin by simp
  then have e: "divs1 = divs" "path1 = path(c := path c + 0.1)"
    using g by (auto simp: growBook_def split: if_splits)
  have d: "distinct cs" "c \<notin> set cs" "\<forall>c\<in>set cs. c < cur" "c < cur" using Cons.prems by auto
  have ih: "(case fold (growBook cap pT dT) cs (cur, path1, divs, ob1) of
           (cur', path', divs', ob') \<Rightarrow> divs' = divs \<and> (\<forall>x\<in>set cs. path' x = path1 x + 0.1))"
    using Cons.IH[OF d(1) d(3), of path1 ob1] fin unfolding c1 e(1) by simp
  have un: "(case fold (growBook cap pT dT) cs (cur, path1, divs, ob1) of
           (cur', path', divs', ob') \<Rightarrow> path' c = path1 c \<and> divs' c = divs c)"
    by (rule fold_growBook_untouched[OF d(2) d(4)])
  show ?case using ih un d(2) by (auto simp: g c1 e split: prod.splits)
qed

lemma kraft_le:
  assumes "kraft K cur divs"
  shows "cur \<le> 2 ^ K"
proof -
  have "(\<Sum>c<cur. (1::nat)) \<le> (\<Sum>c<cur. (2::nat) ^ (K - nat (divs c)))"
    by (rule sum_mono) simp
  then show ?thesis using assms by (simp add: kraft_def)
qed

lemma kraft_full:
  assumes k: "kraft K cur divs" and f: "cur = 2 ^ K" and c: "c < cur"
  shows "divs c = int K"
proof -
  have e: "(\<Sum>c<cur. (1::nat)) = (\<Sum>c<cur. (2::nat) ^ (K - nat (divs c)))"
    using k f by (simp add: kraft_def)
  have "(1::nat) = 2 ^ (K - nat (divs c))"
    by (rule sum_mono_inv[OF e]) (use c in simp_all)
  then have "K - nat (divs c) = 0" by (cases "K - nat (divs c)") simp_all
  then show ?thesis using k c by (auto simp: kraft_def)
qed

lemma kraft_pending:
  assumes k: "kraft K cur divs" and f: "cur < 2 ^ K"
  shows "\<exists>c<cur. divs c < int K"
proof (rule ccontr)
  assume "\<not> (\<exists>c<cur. divs c < int K)"
  then have a: "\<And>c. c < cur \<Longrightarrow> divs c = int K" using k by (force simp: kraft_def)
  have "(\<Sum>c<cur. (2::nat) ^ (K - nat (divs c))) = (\<Sum>c<cur. (1::nat))"
    by (rule sum.cong) (simp_all add: a)
  then show False using k f by (simp add: kraft_def)
qed

subsection \<open>Phase 1\<close>

lemma clampCell_fields:
  "pathTraveled (clampCell c s) = pathTraveled s" "numberDivisions (clampCell c s) = numberDivisions s"
  "typesAll (clampCell c s) = typesAll s" "Conc (clampCell c s) = Conc s"
  "currMov (clampCell c s) = currMov s"
  "capacity (clampCell c s) = capacity s" "calls (clampCell c s) = calls s" "n (clampCell c s) = n s"
  "oob (clampCell c s) = touchBook (capacity s) c (oob s)"
  "posAll (clampCell c s) =
     (posAll s)(c := (case posAll s c of (x, y, z) \<Rightarrow> (clamp01 x, clamp01 y, clamp01 z)))"
  by (simp_all add: clampCell_def touch_fields touchBook_def)

lemma fold_clampCell_fields:
  "pathTraveled (fold clampCell cs s) = pathTraveled s"
  "numberDivisions (fold clampCell cs s) = numberDivisions s"
  "typesAll (fold clampCell cs s) = typesAll s"
  "Conc (fold clampCell cs s) = Conc s"
  "currMov (fold clampCell cs s) = currMov s"
  "capacity (fold clampCell cs s) = capacity s"
  "calls (fold clampCell cs s) = calls s"
  "n (fold clampCell cs s) = n s"
  by (induction cs arbitrary: s; simp add: clampCell_fields)+

lemma oob_fold_clampCell:
  "oob (fold clampCell cs s) = fold (touchBook (capacity s)) cs (oob s)"
  by (induction cs arbitrary: s) (simp_all add: clampCell_fields)

lemma posAll_fold_clampCell_other:
  "c \<notin> set cs \<Longrightarrow> posAll (fold clampCell cs s) c = posAll s c"
  by (induction cs arbitrary: s) (simp_all add: clampCell_fields)

lemma phase1Step_book:
  "(case stepBook p s of (cur, path, divs, ob) \<Rightarrow>
      n (phase1Step p rnd s) = cur \<and> pathTraveled (phase1Step p rnd s) = path
    \<and> numberDivisions (phase1Step p rnd s) = divs
    \<and> oob (phase1Step p rnd s) = fold (touchBook (capacity s)) (rev [1..<cur + 1]) ob)
   \<and> capacity (phase1Step p rnd s) = capacity s"
proof -
  let ?s3 = "s\<lparr>Conc := produceSubstances (Conc s) (posAll s) (typesAll s) (L p) (n s)\<rparr>
              \<lparr>Conc := runDiffusionStep (produceSubstances (Conc s) (posAll s) (typesAll s) (L p) (n s)) (L p) (D p)\<rparr>
              \<lparr>Conc := runDecayStep (runDiffusionStep (produceSubstances (Conc s) (posAll s) (typesAll s) (L p) (n s)) (L p) (D p)) (L p) (mu p)\<rparr>"
  obtain cnt s4 where g: "cellMovementAndDuplication rnd ?s3 (pathThreshold p) (int (divThreshold p)) (n s) = (cnt, s4)"
    by (cases "cellMovementAndDuplication rnd ?s3 (pathThreshold p) (int (divThreshold p)) (n s)")
  have st: "phase1Step p rnd s = clampPhase1 (s4\<lparr>n := cnt\<rparr>)"
    using g by (simp add: phase1Step_def Let_def)
  have b: "bookOf (cnt, s4) = stepBook p s" and c: "capacity s4 = capacity s"
    using fold_growCell_book[of rnd "pathThreshold p" "int (divThreshold p)" "[0..<n s]" "n s" ?s3] g
    by (simp_all add: cellMovementAndDuplication_def stepBook_def bookOf_def)
  show ?thesis
    unfolding st b[symmetric]
    by (simp add: clampPhase1_def fold_clampCell_fields oob_fold_clampCell bookOf_def c)
qed

lemma phase1Step_mono: "n s \<le> n (phase1Step p rnd s)"
proof -
  have "n s \<le> fst (stepBook p s)"
    unfolding stepBook_def
    using fold_growBook_mono[of "(n s, pathTraveled s, numberDivisions s, oob s)"] by simp
  then show ?thesis using phase1Step_book[where p = p and s = s and rnd = rnd] by (simp split: prod.splits)
qed

lemma phase1Step_inv:
  assumes "growthInv (divThreshold p) s"
  shows "growthInv (divThreshold p) (phase1Step p rnd s)"
proof -
  have "(case stepBook p s of (cur', path', divs', ob') \<Rightarrow> kraft (divThreshold p) cur' divs')"
    unfolding stepBook_def
    by (rule fold_growBook_kraft) (use assms in \<open>simp_all add: growthInv_def\<close>)
  then show ?thesis using phase1Step_book[where p = p and s = s and rnd = rnd] by (simp add: growthInv_def split: prod.splits)
qed

lemma phase1Step_ready:
  assumes "c < n s" "numberDivisions s c < int (divThreshold p)"
    "pathTraveled s c + 0.1 > pathThreshold p"
  shows "n s < n (phase1Step p rnd s)"
proof -
  have "n s < fst (stepBook p s)"
    unfolding stepBook_def
    by (rule fold_growBook_ready[of c]) (use assms in simp_all)
  then show ?thesis using phase1Step_book[where p = p and s = s and rnd = rnd] by (simp split: prod.splits)
qed

lemma phase1Step_still:
  assumes "n (phase1Step p rnd s) = n s" "c < n s"
  shows "numberDivisions (phase1Step p rnd s) = numberDivisions s
       \<and> pathTraveled (phase1Step p rnd s) c = pathTraveled s c + 0.1"
proof -
  have f: "fst (stepBook p s) = n s"
    using assms(1) phase1Step_book[where p = p and s = s and rnd = rnd] by (simp split: prod.splits)
  have "(case stepBook p s of (cur', path', divs', ob') \<Rightarrow>
           divs' = numberDivisions s \<and> (\<forall>x\<in>set [0..<n s]. path' x = pathTraveled s x + 0.1))"
    unfolding stepBook_def
    by (rule fold_growBook_still) (use f in \<open>simp_all add: stepBook_def\<close>)
  then show ?thesis using phase1Step_book[where p = p and s = s and rnd = rnd] assms(2) by (simp split: prod.splits)
qed

lemma phase1_waiting:
  assumes "finalNumberCells p = 2 ^ divThreshold p"
  shows "growthInv (divThreshold p) s \<Longrightarrow> n s < 2 ^ divThreshold p \<Longrightarrow> c < n s \<Longrightarrow>
         numberDivisions s c < int (divThreshold p) \<Longrightarrow>
         pathThreshold p - pathTraveled s c < real j / 10 \<Longrightarrow>
         \<exists>s'. phase1 p rnd s = phase1 p rnd s' \<and> growthInv (divThreshold p) s' \<and> n s < n s'"
proof (induction j arbitrary: s)
  case 0
  let ?s1 = "phase1Step p rnd s"
  have r: "pathTraveled s c + 0.1 > pathThreshold p" using "0.prems"(5) by simp
  have "n s < n ?s1" by (rule phase1Step_ready[OF "0.prems"(3,4) r])
  moreover have "phase1 p rnd s = phase1 p rnd ?s1"
    using "0.prems"(2) assms by (subst phase1.simps) simp
  moreover have "growthInv (divThreshold p) ?s1" by (rule phase1Step_inv[OF "0.prems"(1)])
  ultimately show ?case by blast
next
  case (Suc j)
  let ?s1 = "phase1Step p rnd s"
  have u: "phase1 p rnd s = phase1 p rnd ?s1"
    using Suc.prems(2) assms by (subst phase1.simps) simp
  have i1: "growthInv (divThreshold p) ?s1" by (rule phase1Step_inv[OF Suc.prems(1)])
  show ?case
  proof (cases "n s < n ?s1")
    case True
    then show ?thesis using u i1 by blast
  next
    case False
    then have e: "n ?s1 = n s" using phase1Step_mono[where p = p and s = s and rnd = rnd] by simp
    have nr: "\<not> pathTraveled s c + 0.1 > pathThreshold p"
      using phase1Step_ready[OF Suc.prems(3,4), where rnd = rnd] False by blast
    from phase1Step_still[OF e Suc.prems(3)]
    have d: "numberDivisions ?s1 = numberDivisions s"
      and t: "pathTraveled ?s1 c = pathTraveled s c + 0.1" by simp_all
    have a: "n ?s1 < 2 ^ divThreshold p" "c < n ?s1" "numberDivisions ?s1 c < int (divThreshold p)"
      using Suc.prems e d by simp_all
    have b: "pathThreshold p - pathTraveled ?s1 c < real j / 10"
      using Suc.prems(5) t by simp
    from Suc.IH[OF i1 a b] obtain s' where
      "phase1 p rnd ?s1 = phase1 p rnd s'" "growthInv (divThreshold p) s'" "n ?s1 < n s'" by blast
    then show ?thesis using u e by auto
  qed
qed

lemma phase1_full:
  assumes "finalNumberCells p = 2 ^ divThreshold p"
  shows "growthInv (divThreshold p) s \<Longrightarrow>
         \<exists>s'. phase1 p rnd s = Some s' \<and> n s' = 2 ^ divThreshold p
             \<and> (\<forall>c. c < n s' \<longrightarrow> numberDivisions s' c = int (divThreshold p))"
proof (induction s rule: measure_induct_rule[where f = "\<lambda>s. 2 ^ divThreshold p - n s"])
  case (less s)
  have le: "n s \<le> 2 ^ divThreshold p" using kraft_le less.prems by (simp add: growthInv_def)
  show ?case
  proof (cases "n s = 2 ^ divThreshold p")
    case True
    have "phase1 p rnd s = Some s" using True assms by (subst phase1.simps) simp
    moreover have "\<forall>c. c < n s \<longrightarrow> numberDivisions s c = int (divThreshold p)"
      using kraft_full[of "divThreshold p" "n s" "numberDivisions s"] less.prems True
      by (simp add: growthInv_def)
    ultimately show ?thesis using True by blast
  next
    case False
    then have lt: "n s < 2 ^ divThreshold p" using le by simp
    from kraft_pending[of "divThreshold p" "n s" "numberDivisions s"] less.prems lt
    obtain c where c: "c < n s" "numberDivisions s c < int (divThreshold p)"
      by (auto simp: growthInv_def)
    define j where "j = nat \<lceil>(pathThreshold p - pathTraveled s c) * 10\<rceil> + 1"
    have "(pathThreshold p - pathTraveled s c) * 10 < real j"
      unfolding j_def by linarith
    then have b: "pathThreshold p - pathTraveled s c < real j / 10" by simp
    from phase1_waiting[OF assms less.prems lt c b, where rnd = rnd] obtain s' where
      s': "phase1 p rnd s = phase1 p rnd s'" "growthInv (divThreshold p) s'" "n s < n s'" by blast
    have "n s' \<le> 2 ^ divThreshold p" using kraft_le s'(2) by (simp add: growthInv_def)
    then have "2 ^ divThreshold p - n s' < 2 ^ divThreshold p - n s" using s'(3) by simp
    from less.IH[OF this s'(2)] show ?thesis using s'(1) by simp
  qed
qed

lemma growthInv_initSim: "growthInv K (initSim p raw)"
  by (simp add: growthInv_def kraft_def initSim_fields)

lemma phase1_seed_full:
  assumes "finalNumberCells p = 2 ^ divThreshold p"
  shows "\<exists>s. phase1 p rnd (initSim p raw) = Some s \<and> n s = 2 ^ divThreshold p
             \<and> (\<forall>c. c < n s \<longrightarrow> numberDivisions s c = int (divThreshold p))"
  by (rule phase1_full[OF assms growthInv_initSim])

lemma sum_const_eight: "(\<forall>c. c < (8::nat) \<longrightarrow> f c = (3::int)) \<Longrightarrow> (\<Sum>c<8. f c) = 24"
  by (simp add: lessThan_nat_numeral lessThan_Suc)

text \<open>
  Claim C1 as stated fails: with the path threshold 1/4 there is no final state of
  phase 1 with 8 cells whose division counts add up to 7.
\<close>

theorem C1_phase1_counterexample:
  "\<not> (\<exists>s. phase1 (exampleParams 8 3 (1/4)) rndAxis (initSim (exampleParams 8 3 (1/4)) (rawSim (1/2))) = Some s
         \<and> n s = 8 \<and> (\<Sum>c<8. numberDivisions s c) = 7)"
proof
  let ?p = "exampleParams 8 3 (1/4)"
  assume "\<exists>s. phase1 ?p rndAxis (initSim ?p (rawSim (1/2))) = Some s
         \<and> n s = 8 \<and> (\<Sum>c<8. numberDivisions s c) = 7"
  then obtain s where s: "phase1 ?p rndAxis (initSim ?p (rawSim (1/2))) = Some s"
    "(\<Sum>c<8. numberDivisions s c) = 7" by blast
  have e: "finalNumberCells ?p = 2 ^ divThreshold ?p" by (simp add: exampleParams_def)
  from phase1_seed_full[OF e, of rndAxis "rawSim (1/2)"] s(1)
  have "\<forall>c. c < 8 \<longrightarrow> numberDivisions s c = 3" by (auto simp: exampleParams_def)
  from sum_const_eight[OF this] s(2) show False by simp
qed

lemma count_cellMovementAndDuplication:
  "fst (cellMovementAndDuplication rnd s pT dT (n s)) =
     fst (fold (growBook (capacity s) pT dT) [0..<n s] (n s, pathTraveled s, numberDivisions s, oob s))"
proof -
  obtain cnt s4 where g: "fold (growCell rnd pT dT) [0..<n s] (n s, s) = (cnt, s4)"
    by (cases "fold (growCell rnd pT dT) [0..<n s] (n s, s)")
  from fold_growCell_book[of rnd pT dT "[0..<n s]" "n s" s]
  have e: "(cnt, pathTraveled s4, numberDivisions s4, oob s4) =
      fold (growBook (capacity s) pT dT) [0..<n s] (n s, pathTraveled s, numberDivisions s, oob s)"
    by (simp add: g bookOf_def)
  show ?thesis unfolding cellMovementAndDuplication_def g e[symmetric] by simp
qed

text \<open>
  Claim C10. With a final number of 3 cells, a division threshold of 2 and a path
  threshold of 1/20, on a grid of resolution 2, the arrays have 3 entries. The first
  pass of phase 1 ends with 2 cells and no access outside the arrays. In the second
  pass both cells divide: \<^verbatim>\<open>cellMovementAndDuplication\<close> returns 4, which is more than the
  final number of cells; the second daughter is stored at the index 3, the first index
  outside the arrays, where it has the division count 2; and phase 1 ends with 4 cells.
\<close>

theorem C10_phase1_overflow:
  "(let p = exampleParams 3 2 (1/20);
        s0 = initSim p raw;
        s1 = phase1Step p rnd s0;
        s2 = phase1Step p rnd s1
    in 0 < L p \<and> 0 < pathThreshold p \<and> 0 < spatialRange p \<and> 1 \<le> finalNumberCells p
     \<and> capacity s0 = finalNumberCells p \<and> n s0 = 1 \<and> oob s0 = None
     \<and> n s1 = 2 \<and> oob s1 = None \<and> capacity s1 = finalNumberCells p
     \<and> fst (cellMovementAndDuplication rnd s1 (pathThreshold p) (int (divThreshold p)) (n s1)) = 4
     \<and> n s2 = 4 \<and> finalNumberCells p < n s2
     \<and> oob s2 = Some 3 \<and> finalNumberCells p \<le> 3 \<and> numberDivisions s2 3 = 2
     \<and> phase1 p rnd s0 = Some s2)"
proof -
  define p where "p = exampleParams 3 2 (1/20)"
  define s0 where "s0 = initSim p raw"
  define s1 where "s1 = phase1Step p rnd s0"
  define s2 where "s2 = phase1Step p rnd s1"
  have pf: "L p = 2" "pathThreshold p = 1/20" "spatialRange p = 1/10" "finalNumberCells p = 3"
    "divThreshold p = 2"
    by (simp_all add: p_def exampleParams_def)
  have f0: "n s0 = 1" "capacity s0 = 3" "oob s0 = None" "pathTraveled s0 0 = 0" "pathTraveled s0 (Suc 0) = 0"
    "numberDivisions s0 0 = 0"
    by (simp_all add: s0_def initSim_fields pf)
  have b0: "stepBook p s0 =
      (2, (pathTraveled s0)(0 := 1/20), (numberDivisions s0)(0 := 1, Suc 0 := 1), None)"
    by (simp add: stepBook_def f0 pf growBook_def touchBook_def)
  from phase1Step_book[where p = p and s = s0 and rnd = rnd]
  have f1: "n s1 = 2" "pathTraveled s1 = (pathTraveled s0)(0 := 1/20)"
    "numberDivisions s1 = (numberDivisions s0)(0 := 1, Suc 0 := 1)" "oob s1 = None" "capacity s1 = 3"
    unfolding b0 s1_def[symmetric] by (simp_all add: f0 touchBook_def upt_rec)
  have b1: "stepBook p s1 =
      (4, (pathTraveled s1)(0 := 1/10, Suc 0 := 1/20), (numberDivisions s1)(0 := 2, 2 := 2, Suc 0 := 2, 3 := 2), Some 3)"
    by (simp add: stepBook_def f1 f0 pf growBook_def touchBook_def upt_rec)
  from phase1Step_book[where p = p and s = s1 and rnd = rnd]
  have f2: "n s2 = 4" "numberDivisions s2 = (numberDivisions s1)(0 := 2, 2 := 2, Suc 0 := 2, 3 := 2)"
    "oob s2 = Some 3"
    unfolding b1 s2_def[symmetric] by (simp_all add: f1 touchBook_def upt_rec)
  have c: "fst (cellMovementAndDuplication rnd s1 (pathThreshold p) (int (divThreshold p)) (n s1)) = 4"
    unfolding count_cellMovementAndDuplication using b1 by (simp add: stepBook_def)
  have ph: "phase1 p rnd s0 = Some s2"
    by (subst phase1.simps, simp add: f0 pf s1_def[symmetric],
        subst phase1.simps, simp add: f1 pf s2_def[symmetric],
        subst phase1.simps, simp add: f2 pf)
  show ?thesis
    unfolding Let_def p_def[symmetric] s0_def[symmetric] s1_def[symmetric] s2_def[symmetric]
    using pf f0 f1 f2 c ph by simp
qed

subsection \<open>The boundary loops\<close>

lemma clampPhase1_cell0: "posAll (clampPhase1 s) 0 = posAll s 0"
  unfolding clampPhase1_def by (rule posAll_fold_clampCell_other) simp

lemma clamp01_unit: "0 \<le> clamp01 x \<and> clamp01 x \<le> 1"
  by (simp add: clamp01_def)

lemma clampCell_unit: "inUnitCube (posAll (clampCell c s) c)"
  by (cases "posAll s c") (simp add: clampCell_fields inUnitCube_def clamp01_unit)

lemma applyMovement_unit: "inUnitCube (posAll (applyMovement c s) c)"
  unfolding applyMovement_def by (rule clampCell_unit)

lemma applyMovement_other: "x \<noteq> c \<Longrightarrow> posAll (applyMovement c s) x = posAll s x"
  by (simp add: applyMovement_def clampCell_fields)

lemma applyMovement_n: "n (applyMovement c s) = n s"
  by (simp add: applyMovement_def clampCell_fields)

lemma fold_applyMovement_n: "n (fold applyMovement cs s) = n s"
  by (induction cs arbitrary: s) (simp_all add: applyMovement_n)

lemma fold_applyMovement_unit:
  "x \<in> set cs \<or> inUnitCube (posAll s x) \<Longrightarrow> inUnitCube (posAll (fold applyMovement cs s) x)"
proof (induction cs arbitrary: s)
  case Nil
  then show ?case by simp
next
  case (Cons c cs)
  have "x \<in> set cs \<or> inUnitCube (posAll (applyMovement c s) x)"
    using Cons.prems applyMovement_unit[of x s] applyMovement_other[of x c s] by (cases "x = c") auto
  from Cons.IH[OF this] show ?case by simp
qed

lemma phase2Step_unit:
  assumes "c < n s"
  shows "inUnitCube (posAll (phase2Step p s) c) \<and> n (phase2Step p s) = n s"
  using assms by (simp add: phase2Step_def Let_def fold_applyMovement_unit fold_applyMovement_n)

lemma clampPhase1_unit:
  assumes "1 \<le> c" "c \<le> n s"
  shows "inUnitCube (posAll (clampPhase1 s) c)"
proof -
  have "x \<in> set cs \<or> inUnitCube (posAll s' x) \<Longrightarrow> inUnitCube (posAll (fold clampCell cs s') x)" for x cs s'
  proof (induction cs arbitrary: s')
    case Nil
    then show ?case by simp
  next
    case (Cons a cs)
    have "x \<in> set cs \<or> inUnitCube (posAll (clampCell a s') x)"
      using Cons.prems clampCell_unit[of x s'] by (cases "x = a") (auto simp: clampCell_fields)
    from Cons.IH[OF this] show ?case by simp
  qed
  moreover have "c \<in> set (rev [1..<n s + 1])" using assms by auto
  ultimately show ?thesis unfolding clampPhase1_def by blast
qed

text \<open>A pass of phase 1 in which the only cell does not divide.\<close>

lemma phase1Step_single:
  assumes "n s = 1" "\<not> divides (pathThreshold p) (int (divThreshold p)) 0 s"
  shows "n (phase1Step p rnd s) = 1
       \<and> posAll (phase1Step p rnd s) 0 = vadd (posAll s 0) (vscale 0.1 (unitVec (drawOffset rnd (calls s))))
       \<and> pathTraveled (phase1Step p rnd s) 0 = pathTraveled s 0 + 0.1
       \<and> numberDivisions (phase1Step p rnd s) 0 = numberDivisions s 0
       \<and> calls (phase1Step p rnd s) = calls s + 3"
proof -
  let ?s3 = "s\<lparr>Conc := runDecayStep (runDiffusionStep (produceSubstances (Conc s) (posAll s) (typesAll s) (L p) (n s)) (L p) (D p)) (L p) (mu p)\<rparr>"
  have nd: "\<not> divides (pathThreshold p) (int (divThreshold p)) 0 ?s3"
    using assms(2) by (simp add: divides_def)
  have g: "cellMovementAndDuplication rnd ?s3 (pathThreshold p) (int (divThreshold p)) (Suc 0) = (Suc 0, moveCell rnd 0 ?s3)"
    using nd by (simp add: cellMovementAndDuplication_def growCell_eq)
  have st: "phase1Step p rnd s = clampPhase1 ((moveCell rnd 0 ?s3)\<lparr>n := Suc 0\<rparr>)"
    using assms(1) g by (simp add: phase1Step_def Let_def)
  show ?thesis
    unfolding st
    by (simp add: clampPhase1_def fold_clampCell_fields clampCell_fields moveCell_fields)
qed

lemma drawOffset_rndAxis: "drawOffset rndAxis (3 * k) = (1/2, 0, 0)"
proof -
  have "(3 * k + 1) mod 3 = 1" "(3 * k + 2) mod 3 = 2" by presburger+
  then show ?thesis by (simp add: drawOffset_def rndAxis_def)
qed

lemma seed_walk:
  assumes "k \<le> 9"
  shows "(let s = (phase1Step (exampleParams 2 1 1) rndAxis ^^ k) (initSim (exampleParams 2 1 1) (rawSim (1/2)))
          in n s = 1 \<and> posAll s 0 = (1/2 + real k / 10, 1/2, 1/2)
           \<and> pathTraveled s 0 = real k / 10 \<and> numberDivisions s 0 = 0 \<and> calls s = 3 * k)"
  using assms
proof (induction k)
  case 0
  then show ?case by (simp add: initSim_fields exampleParams_def rawSim_def third_def)
next
  case (Suc k)
  let ?p = "exampleParams 2 1 1"
  define s where "s = (phase1Step ?p rndAxis ^^ k) (initSim ?p (rawSim (1/2)))"
  have ih: "n s = 1" "posAll s 0 = (1/2 + real k / 10, 1/2, 1/2)"
    "pathTraveled s 0 = real k / 10" "numberDivisions s 0 = 0" "calls s = 3 * k"
    using Suc by (simp_all add: s_def Let_def)
  have "real k \<le> 8" using Suc.prems by simp
  then have nd: "\<not> divides (pathThreshold ?p) (int (divThreshold ?p)) 0 s"
    by (simp add: divides_def ih exampleParams_def)
  have u: "unitVec (1/2, 0, 0) = (1, 0, 0)" by (simp add: unitVec_def getNorm_axis)
  from phase1Step_single[OF ih(1) nd, of rndAxis]
  show ?case
    unfolding funpow.simps comp_def s_def[symmetric] Let_def
    by (simp add: ih drawOffset_rndAxis u vadd_def vscale_def add_divide_distrib)
qed

text \<open>
  Claim C2 at a failing input. With a final number of 2 cells and a path threshold of 1,
  and random values that move the cell by 0.1 along the first axis in every step, the
  only cell has not divided after six passes of phase 1, and its first coordinate is
  1.1: the boundary loop of phase 1 runs over the indices \<open>n\<close> down to 1 and never
  treats the cell 0. (The loop of phase 2 treats the indices \<open>n - 1\<close> down to 0, see
  \<open>phase2Step_unit\<close>.)
\<close>

theorem C2_phase1_cell0_not_clamped:
  "(let p = exampleParams 2 1 1;
        s = (phase1Step p rndAxis ^^ 6) (initSim p (rawSim (1/2)))
    in n s = 1 \<and> n s < finalNumberCells p
     \<and> posAll s 0 = (11/10, 1/2, 1/2) \<and> \<not> inUnitCube (posAll s 0)
     \<and> posAll (clampPhase1 s) 0 = posAll s 0)"
proof -
  have "(6::nat) \<le> 9" by simp
  from seed_walk[OF this] show ?thesis
    by (simp add: Let_def inUnitCube_def exampleParams_def clampPhase1_cell0)
qed

subsection \<open>Phase 1, pass by pass\<close>

lemma phase1Step_split: "phase1Step p rnd s = clampPhase1 (growthPass p rnd s)"
  by (simp add: phase1Step_def growthPass_def Let_def split: prod.splits)

lemma growthPass_book:
  "(case stepBook p s of (cur, path, divs, ob) \<Rightarrow>
      n (growthPass p rnd s) = cur \<and> pathTraveled (growthPass p rnd s) = path
    \<and> numberDivisions (growthPass p rnd s) = divs \<and> oob (growthPass p rnd s) = ob)
   \<and> capacity (growthPass p rnd s) = capacity s"
proof -
  let ?s3 = "s\<lparr>Conc := produceSubstances (Conc s) (posAll s) (typesAll s) (L p) (n s)\<rparr>
              \<lparr>Conc := runDiffusionStep (produceSubstances (Conc s) (posAll s) (typesAll s) (L p) (n s)) (L p) (D p)\<rparr>
              \<lparr>Conc := runDecayStep (runDiffusionStep (produceSubstances (Conc s) (posAll s) (typesAll s) (L p) (n s)) (L p) (D p)) (L p) (mu p)\<rparr>"
  obtain cnt s4 where g: "cellMovementAndDuplication rnd ?s3 (pathThreshold p) (int (divThreshold p)) (n s) = (cnt, s4)"
    by (cases "cellMovementAndDuplication rnd ?s3 (pathThreshold p) (int (divThreshold p)) (n s)")
  have st: "growthPass p rnd s = s4\<lparr>n := cnt\<rparr>"
    using g by (simp add: growthPass_def Let_def)
  have b: "bookOf (cnt, s4) = stepBook p s" and c: "capacity s4 = capacity s"
    using fold_growCell_book[of rnd "pathThreshold p" "int (divThreshold p)" "[0..<n s]" "n s" ?s3] g
    by (simp_all add: cellMovementAndDuplication_def stepBook_def bookOf_def)
  show ?thesis
    unfolding st b[symmetric] by (simp add: bookOf_def c)
qed

lemma fold_touchBook_inside:
  "\<forall>i\<in>set cs. i < cap \<Longrightarrow> fold (touchBook cap) cs None = None"
  by (induction cs) (simp_all add: touchBook_def)

lemma fold_growBook_inside:
  assumes "\<forall>c\<in>set cs. c < cur"
    and "fst (fold (growBook cap pT dT) cs (cur, path, divs, None)) \<le> cap"
  shows "snd (snd (snd (fold (growBook cap pT dT) cs (cur, path, divs, None)))) = None"
  using assms
proof (induction cs arbitrary: cur path divs)
  case Nil
  then show ?case by simp
next
  case (Cons c cs)
  obtain cur1 path1 divs1 ob1 where g: "growBook cap pT dT c (cur, path, divs, None) = (cur1, path1, divs1, ob1)"
    by (cases "growBook cap pT dT c (cur, path, divs, None)")
  have m: "cur1 \<le> fst (fold (growBook cap pT dT) cs (cur1, path1, divs1, ob1))"
    using fold_growBook_mono[of "(cur1, path1, divs1, ob1)"] by simp
  have le: "cur1 \<le> cap" using m Cons.prems(2) by (simp add: g)
  have c: "c < cur" using Cons.prems(1) by simp
  have cc: "cur \<le> cur1" using growBook_mono[of "(cur, path, divs, None)" cap pT dT c] g by simp
  have o: "ob1 = None"
    using g c cc le by (auto simp: growBook_def touchBook_def split: if_splits)
  have b: "\<forall>c\<in>set cs. c < cur1" using Cons.prems(1) cc by auto
  from Cons.IH[OF b, of path1 divs1] Cons.prems(2) show ?case by (simp add: g o)
qed

text \<open>One pass from a state that satisfies the invariant.\<close>

lemma growthPass_safe:
  assumes "safeInv (divThreshold p) s"
  shows "kraft (divThreshold p) (n (growthPass p rnd s)) (numberDivisions (growthPass p rnd s))
       \<and> n (growthPass p rnd s) \<le> 2 ^ divThreshold p
       \<and> oob (growthPass p rnd s) = None
       \<and> capacity (growthPass p rnd s) = 2 ^ divThreshold p
       \<and> n (growthPass p rnd s) = n (phase1Step p rnd s)
       \<and> numberDivisions (growthPass p rnd s) = numberDivisions (phase1Step p rnd s)"
proof -
  let ?g = "growthPass p rnd s"
  obtain cur path divs ob where b: "stepBook p s = (cur, path, divs, ob)" by (cases "stepBook p s")
  from growthPass_book[where p = p and s = s and rnd = rnd] have f: "n ?g = cur" "numberDivisions ?g = divs" "oob ?g = ob"
    "capacity ?g = capacity s" by (simp_all add: b)
  from phase1Step_book[where p = p and s = s and rnd = rnd]
  have h: "n (phase1Step p rnd s) = cur" "numberDivisions (phase1Step p rnd s) = divs"
    by (simp_all add: b)
  have i: "growthInv (divThreshold p) s" "capacity s = 2 ^ divThreshold p" "oob s = None"
    using assms by (simp_all add: safeInv_def)
  have k: "kraft (divThreshold p) cur divs"
    using phase1Step_inv[OF i(1), where rnd = rnd] by (simp add: growthInv_def h)
  have le: "cur \<le> 2 ^ divThreshold p" by (rule kraft_le[OF k])
  have "snd (snd (snd (stepBook p s))) = None"
    unfolding stepBook_def i(3)
    by (rule fold_growBook_inside) (use le b i in \<open>simp_all add: stepBook_def\<close>)
  then have o: "ob = None" by (simp add: b)
  show ?thesis using f h k le o i by simp
qed

lemma phase1Step_safe:
  assumes "safeInv (divThreshold p) s" "n (growthPass p rnd s) < 2 ^ divThreshold p"
  shows "safeInv (divThreshold p) (phase1Step p rnd s)"
proof -
  let ?g = "growthPass p rnd s"
  from growthPass_safe[OF assms(1), where rnd = rnd]
  have g: "oob ?g = None" "capacity ?g = 2 ^ divThreshold p" "n ?g = n (phase1Step p rnd s)" by blast+
  have i: "growthInv (divThreshold p) s" using assms(1) by (simp add: safeInv_def)
  have "oob (phase1Step p rnd s) = fold (touchBook (capacity ?g)) (rev [1..<n ?g + 1]) (oob ?g)"
    by (simp add: phase1Step_split clampPhase1_def oob_fold_clampCell)
  also have "\<dots> = None"
    unfolding g(1) by (rule fold_touchBook_inside) (use assms(2) g(2) in auto)
  finally have o: "oob (phase1Step p rnd s) = None" .
  have c: "capacity (phase1Step p rnd s) = 2 ^ divThreshold p"
    by (simp add: phase1Step_split clampPhase1_def fold_clampCell_fields g(2))
  show ?thesis
    using phase1Step_inv[OF i, where rnd = rnd] o c assms(2) g(3) by (simp add: safeInv_def)
qed

lemma outcome_invalid:
  assumes "finalNumberCells p = 2 ^ divThreshold p" "safeInv (divThreshold p) s" "\<not> passValid p s"
  shows "growthOutcome p rnd s"
  unfolding growthOutcome_def
  by (rule exI[of _ 0]) (use assms in \<open>simp add: safeInv_def\<close>)

lemma outcome_final:
  assumes fin: "finalNumberCells p = 2 ^ divThreshold p" and i: "safeInv (divThreshold p) s"
    and e: "n (growthPass p rnd s) = 2 ^ divThreshold p"
  shows "growthOutcome p rnd s"
proof -
  let ?g = "growthPass p rnd s"
  from growthPass_safe[OF i, where rnd = rnd]
  have k: "kraft (divThreshold p) (n ?g) (numberDivisions ?g)" and o: "oob ?g = None" by blast+
  have d: "\<forall>c. c < finalNumberCells p \<longrightarrow> numberDivisions ?g c = int (divThreshold p)"
    using kraft_full[OF k e] e fin by simp
  show ?thesis
    unfolding growthOutcome_def
    by (rule exI[of _ 0]) (use i e o d fin in \<open>simp add: safeInv_def\<close>)
qed

lemma outcome_step:
  assumes fin: "finalNumberCells p = 2 ^ divThreshold p" and i: "safeInv (divThreshold p) s"
    and v: "passValid p s" and r: "growthOutcome p rnd (phase1Step p rnd s)"
  shows "growthOutcome p rnd s"
proof -
  let ?f = "phase1Step p rnd"
  from r obtain k where
    a: "\<forall>j. j \<le> k \<longrightarrow> n ((?f ^^ j) (?f s)) < finalNumberCells p \<and> oob ((?f ^^ j) (?f s)) = None"
    and b: "\<forall>j. j < k \<longrightarrow> passValid p ((?f ^^ j) (?f s))"
    and c: "\<not> passValid p ((?f ^^ k) (?f s))
           \<or> n (growthPass p rnd ((?f ^^ k) (?f s))) = finalNumberCells p
             \<and> oob (growthPass p rnd ((?f ^^ k) (?f s))) = None
             \<and> (\<forall>c. c < finalNumberCells p \<longrightarrow>
                   numberDivisions (growthPass p rnd ((?f ^^ k) (?f s))) c = int (divThreshold p))"
    unfolding growthOutcome_def by blast
  have sw: "(?f ^^ j) (?f s) = (?f ^^ Suc j) s" for j by (simp add: funpow_swap1)
  have a': "\<forall>j. j \<le> Suc k \<longrightarrow> n ((?f ^^ j) s) < finalNumberCells p \<and> oob ((?f ^^ j) s) = None"
  proof (intro allI impI)
    fix j assume "j \<le> Suc k"
    show "n ((?f ^^ j) s) < finalNumberCells p \<and> oob ((?f ^^ j) s) = None"
    proof (cases j)
      case 0
      then show ?thesis using i fin by (simp add: safeInv_def)
    next
      case (Suc j')
      then have "j' \<le> k" using \<open>j \<le> Suc k\<close> by simp
      with a have "n ((?f ^^ j') (?f s)) < finalNumberCells p \<and> oob ((?f ^^ j') (?f s)) = None" by blast
      then show ?thesis unfolding sw Suc .
    qed
  qed
  have b': "\<forall>j. j < Suc k \<longrightarrow> passValid p ((?f ^^ j) s)"
  proof (intro allI impI)
    fix j assume "j < Suc k"
    show "passValid p ((?f ^^ j) s)"
    proof (cases j)
      case 0
      then show ?thesis using v by simp
    next
      case (Suc j')
      then have "j' < k" using \<open>j < Suc k\<close> by simp
      with b have "passValid p ((?f ^^ j') (?f s))" by blast
      then show ?thesis unfolding sw Suc .
    qed
  qed
  show ?thesis
    unfolding growthOutcome_def
    by (rule exI[of _ "Suc k"]) (use a' b' c[unfolded sw] in blast)
qed

lemma growth_cases:
  assumes fin: "finalNumberCells p = 2 ^ divThreshold p" and i: "safeInv (divThreshold p) s"
  shows "growthOutcome p rnd s \<or> (passValid p s \<and> safeInv (divThreshold p) (phase1Step p rnd s))"
proof (cases "passValid p s")
  case False
  then show ?thesis using outcome_invalid[OF fin i] by blast
next
  case True
  show ?thesis
  proof (cases "n (growthPass p rnd s) = 2 ^ divThreshold p")
    case e: True
    then show ?thesis using outcome_final[OF fin i] by blast
  next
    case False
    moreover have "n (growthPass p rnd s) \<le> 2 ^ divThreshold p"
      using growthPass_safe[OF i, where rnd = rnd] by blast
    ultimately have "n (growthPass p rnd s) < 2 ^ divThreshold p" by simp
    from phase1Step_safe[OF i this] True show ?thesis by blast
  qed
qed

lemma growth_waiting:
  assumes fin: "finalNumberCells p = 2 ^ divThreshold p"
    and outer: "\<And>s'. safeInv (divThreshold p) s' \<Longrightarrow> N < n s' \<Longrightarrow> growthOutcome p rnd s'"
  shows "safeInv (divThreshold p) s \<Longrightarrow> n s = N \<Longrightarrow> c < n s \<Longrightarrow>
         numberDivisions s c < int (divThreshold p) \<Longrightarrow>
         pathThreshold p - pathTraveled s c < real j / 10 \<Longrightarrow> growthOutcome p rnd s"
proof (induction j arbitrary: s)
  case 0
  let ?s1 = "phase1Step p rnd s"
  have r: "pathTraveled s c + 0.1 > pathThreshold p" using "0.prems"(5) by simp
  have gt: "n s < n ?s1" by (rule phase1Step_ready[OF "0.prems"(3,4) r])
  from growth_cases[OF fin "0.prems"(1), of rnd] show ?case
  proof
    assume "growthOutcome p rnd s" then show ?thesis .
  next
    assume a: "passValid p s \<and> safeInv (divThreshold p) ?s1"
    then have "growthOutcome p rnd ?s1" using outer gt "0.prems"(2) by simp
    then show ?thesis using outcome_step[OF fin "0.prems"(1)] a by blast
  qed
next
  case (Suc j)
  let ?s1 = "phase1Step p rnd s"
  from growth_cases[OF fin Suc.prems(1), of rnd] show ?case
  proof
    assume "growthOutcome p rnd s" then show ?thesis .
  next
    assume a: "passValid p s \<and> safeInv (divThreshold p) ?s1"
    have "growthOutcome p rnd ?s1"
    proof (cases "n s < n ?s1")
      case True
      then show ?thesis using outer a Suc.prems(2) by simp
    next
      case False
      then have e: "n ?s1 = n s" using phase1Step_mono[where p = p and s = s and rnd = rnd] by simp
      have nr: "\<not> pathTraveled s c + 0.1 > pathThreshold p"
        using phase1Step_ready[OF Suc.prems(3,4), where rnd = rnd] False by blast
      from phase1Step_still[OF e Suc.prems(3)]
      have d: "numberDivisions ?s1 = numberDivisions s"
        and t: "pathTraveled ?s1 c = pathTraveled s c + 0.1" by simp_all
      have q: "n ?s1 = N" "c < n ?s1" "numberDivisions ?s1 c < int (divThreshold p)"
        using Suc.prems e d by simp_all
      have b: "pathThreshold p - pathTraveled ?s1 c < real j / 10"
        using Suc.prems(5) t by simp
      from a have i1: "safeInv (divThreshold p) ?s1" by simp
      show ?thesis by (rule Suc.IH[OF i1 q b])
    qed
    then show ?thesis using outcome_step[OF fin Suc.prems(1)] a by blast
  qed
qed

lemma growth_reaches:
  assumes fin: "finalNumberCells p = 2 ^ divThreshold p"
  shows "safeInv (divThreshold p) s \<Longrightarrow> growthOutcome p rnd s"
proof (induction s rule: measure_induct_rule[where f = "\<lambda>s. 2 ^ divThreshold p - n s"])
  case (less s)
  have lt: "n s < 2 ^ divThreshold p" and k: "kraft (divThreshold p) (n s) (numberDivisions s)"
    using less.prems by (simp_all add: safeInv_def growthInv_def)
  have outer: "growthOutcome p rnd s'" if "safeInv (divThreshold p) s'" "n s < n s'" for s'
  proof -
    have "n s' < 2 ^ divThreshold p" using that(1) by (simp add: safeInv_def)
    then have "2 ^ divThreshold p - n s' < 2 ^ divThreshold p - n s" using that(2) by simp
    from less.IH[OF this that(1)] show ?thesis .
  qed
  from kraft_pending[OF k lt] obtain c where c: "c < n s" "numberDivisions s c < int (divThreshold p)"
    by blast
  define j where "j = nat \<lceil>(pathThreshold p - pathTraveled s c) * 10\<rceil> + 1"
  have "(pathThreshold p - pathTraveled s c) * 10 < real j"
    unfolding j_def by linarith
  then have b: "pathThreshold p - pathTraveled s c < real j / 10" by simp
  show ?case
    by (rule growth_waiting[OF fin outer less.prems refl c b])
qed

lemma safeInv_initSim:
  assumes "finalNumberCells p = 2 ^ K" "0 < K"
  shows "safeInv K (initSim p raw)"
proof -
  have "(1::nat) < 2 ^ K" using assms(2) by (metis one_less_numeral_iff one_less_power semiring_norm(76))
  then show ?thesis
    using assms(1) by (simp add: safeInv_def growthInv_initSim initSim_fields)
qed

lemma unitVec_nonneg:
  assumes "\<forall>i. 1/2 \<le> rnd i"
  shows "nonneg3 (unitVec (drawOffset rnd k))"
proof -
  have r: "0 \<le> rnd i - 1/2" for i using assms by (simp add: algebra_simps)
  have g: "0 \<le> getNorm a" for a by (rule getNorm_nonneg)
  show ?thesis
    unfolding unitVec_def drawOffset_def nonneg3_def
    using r g by (simp add: divide_nonneg_nonneg)
qed

lemma vadd_nonneg: "nonneg3 a \<Longrightarrow> nonneg3 b \<Longrightarrow> 0 \<le> k \<Longrightarrow> nonneg3 (vadd a (vscale k b))"
  by (cases a; cases b) (simp add: nonneg3_def vadd_def vscale_def)

lemma growCell_nonneg:
  assumes r: "\<forall>i. 1/2 \<le> rnd i" and q: "\<forall>x<cur. nonneg3 (posAll s x)" and c: "c < cur"
  shows "(case growCell rnd pT dT c (cur, s) of (cur', s') \<Rightarrow> \<forall>x<cur'. nonneg3 (posAll s' x))"
proof -
  let ?m = "moveCell rnd c s"
  have m: "\<forall>x<cur. nonneg3 (posAll ?m x)"
    using q c vadd_nonneg[OF _ unitVec_nonneg[OF r]] by (simp add: moveCell_fields)
  show ?thesis
  proof (cases "divides pT dT c s")
    case False
    then show ?thesis using m by (simp add: growCell_eq)
  next
    case True
    obtain cur' s' where g: "divideCell rnd pT c (cur, ?m) = (cur', s')"
      by (cases "divideCell rnd pT c (cur, ?m)")
    have f: "cur' = fst (divideCell rnd pT c (cur, ?m))" "s' = snd (divideCell rnd pT c (cur, ?m))"
      using g by simp_all
    have "\<forall>x<cur'. nonneg3 (posAll s' x)"
      unfolding f divideCell_fields
      using m c vadd_nonneg[OF _ unitVec_nonneg[OF r]] by (auto simp: less_Suc_eq)
    then show ?thesis using True by (simp add: growCell_eq g)
  qed
qed

lemma fold_growCell_nonneg:
  assumes r: "\<forall>i. 1/2 \<le> rnd i"
  shows "\<forall>x<cur. nonneg3 (posAll s x) \<Longrightarrow> \<forall>c\<in>set cs. c < cur \<Longrightarrow>
         (case fold (growCell rnd pT dT) cs (cur, s) of (cur', s') \<Rightarrow> \<forall>x<cur'. nonneg3 (posAll s' x))"
proof (induction cs arbitrary: cur s)
  case Nil
  then show ?case by simp
next
  case (Cons c cs)
  obtain cur1 s1 where g: "growCell rnd pT dT c (cur, s) = (cur1, s1)"
    by (cases "growCell rnd pT dT c (cur, s)")
  have c: "c < cur" using Cons.prems(2) by simp
  have q1: "\<forall>x<cur1. nonneg3 (posAll s1 x)"
    using growCell_nonneg[OF r Cons.prems(1) c, of pT dT] g by simp
  have "fst (bookOf (cur, s)) \<le> fst (bookOf (growCell rnd pT dT c (cur, s)))"
    unfolding bookOf_growCell by (rule growBook_mono)
  then have "cur \<le> cur1" by (simp add: g bookOf_def)
  then have b: "\<forall>c\<in>set cs. c < cur1" using Cons.prems(2) by auto
  from Cons.IH[OF q1 b] show ?case by (simp add: g)
qed

lemma growthPass_nonneg:
  assumes r: "\<forall>i. 1/2 \<le> rnd i" and q: "nonnegCells s"
  shows "nonnegCells (growthPass p rnd s)"
proof -
  let ?s3 = "s\<lparr>Conc := produceSubstances (Conc s) (posAll s) (typesAll s) (L p) (n s)\<rparr>
              \<lparr>Conc := runDiffusionStep (produceSubstances (Conc s) (posAll s) (typesAll s) (L p) (n s)) (L p) (D p)\<rparr>
              \<lparr>Conc := runDecayStep (runDiffusionStep (produceSubstances (Conc s) (posAll s) (typesAll s) (L p) (n s)) (L p) (D p)) (L p) (mu p)\<rparr>"
  obtain cnt s4 where g: "cellMovementAndDuplication rnd ?s3 (pathThreshold p) (int (divThreshold p)) (n s) = (cnt, s4)"
    by (cases "cellMovementAndDuplication rnd ?s3 (pathThreshold p) (int (divThreshold p)) (n s)")
  have st: "growthPass p rnd s = s4\<lparr>n := cnt\<rparr>"
    using g by (simp add: growthPass_def Let_def)
  have q3: "\<forall>x<n s. nonneg3 (posAll ?s3 x)" using q by (simp add: nonnegCells_def)
  have "\<forall>c\<in>set [0..<n s]. c < n s" by simp
  from fold_growCell_nonneg[OF r q3 this, of "pathThreshold p" "int (divThreshold p)"] g
  show ?thesis unfolding st by (simp add: cellMovementAndDuplication_def nonnegCells_def)
qed

lemma clamp01_nonneg: "0 \<le> clamp01 x"
  by (simp add: clamp01_def)

lemma clampCell_nonneg: "nonneg3 (posAll s x) \<or> x = c \<Longrightarrow> nonneg3 (posAll (clampCell c s) x)"
  by (cases "posAll s c") (auto simp: clampCell_fields nonneg3_def clamp01_nonneg)

lemma fold_clampCell_nonneg:
  "nonneg3 (posAll s x) \<Longrightarrow> nonneg3 (posAll (fold clampCell cs s) x)"
  by (induction cs arbitrary: s) (simp_all add: clampCell_nonneg)

lemma clampPhase1_nonneg:
  assumes "nonnegCells s"
  shows "nonnegCells (clampPhase1 s)"
proof (unfold nonnegCells_def, intro allI impI)
  fix x assume "x < n (clampPhase1 s)"
  then have "x < n s" by (simp add: clampPhase1_def fold_clampCell_fields)
  then have "nonneg3 (posAll s x)" using assms by (simp add: nonnegCells_def)
  then show "nonneg3 (posAll (clampPhase1 s) x)"
    unfolding clampPhase1_def by (rule fold_clampCell_nonneg)
qed

lemma phase1Step_nonneg:
  assumes "\<forall>i. 1/2 \<le> rnd i" "nonnegCells s"
  shows "nonnegCells (phase1Step p rnd s)"
  unfolding phase1Step_split by (rule clampPhase1_nonneg[OF growthPass_nonneg[OF assms]])

lemma run_nonneg:
  assumes "\<forall>i. 1/2 \<le> rnd i" "nonnegCells s"
  shows "nonnegCells ((phase1Step p rnd ^^ j) s)"
proof (induction j)
  case 0
  then show ?case using assms(2) by simp
next
  case (Suc j)
  then show ?case using phase1Step_nonneg[OF assms(1)] by simp
qed

lemma nonneg_passValid:
  assumes "0 < L p" "nonnegCells s"
  shows "passValid p s"
  unfolding passValid_def
proof (intro allI impI)
  fix c assume "c < n s"
  then have q: "nonneg3 (posAll s c)" using assms(2) by (simp add: nonnegCells_def)
  obtain x y z where e: "posAll s c = (x, y, z)" by (cases "posAll s c")
  show "inGrid (L p) (voxelOf (L p) (posAll s c))"
    using q assms(1) unfolding e
    by (simp add: nonneg3_def voxelOf_def inGrid_def voxelIndex_inGrid)
qed

lemma nonnegCells_initSim:
  assumes "0 < finalNumberCells p" "0 \<le> third (posAll raw 0)"
  shows "nonnegCells (initSim p raw)"
  using assms by (simp add: nonnegCells_def initSim_fields nonneg3_def)

lemma run_passValid:
  assumes "\<forall>i. 1/2 \<le> rnd i" "0 \<le> third (posAll raw 0)" "0 < L p" "0 < finalNumberCells p"
  shows "passValid p ((phase1Step p rnd ^^ j) (initSim p raw))"
  by (rule nonneg_passValid[OF assms(3) run_nonneg[OF assms(1) nonnegCells_initSim[OF assms(4,2)]]])

lemma capacity_run: "capacity ((phase1Step p rnd ^^ j) s) = capacity s"
proof (induction j)
  case 0
  then show ?case by simp
next
  case (Suc j)
  have "capacity (phase1Step p rnd ((phase1Step p rnd ^^ j) s)) = capacity ((phase1Step p rnd ^^ j) s)"
    using phase1Step_book[where p = p and s = "(phase1Step p rnd ^^ j) s" and rnd = rnd] by blast
  then show ?case using Suc by simp
qed

lemma fold_touchBook_Some: "fold (touchBook cap) cs (Some x) = Some x"
  by (induction cs) (simp_all add: touchBook_def)

lemma clampPhase1_oob_full:
  assumes "oob s = None" "capacity s \<le> n s" "0 < n s"
  shows "oob (clampPhase1 s) = Some (n s)"
proof -
  have r: "rev [1..<n s + 1] = n s # rev [1..<n s]" using assms(3) by simp
  show ?thesis
    unfolding clampPhase1_def oob_fold_clampCell r
    using assms by (simp add: touchBook_def fold_touchBook_Some)
qed

lemma rndAxis_half: "\<forall>i. 1/2 \<le> rndAxis i"
  by (simp add: rndAxis_def)

text \<open>
  Claim C1, amended. With a final number of 8 cells, a division threshold of 3 and a path
  threshold above 0 and below \<open>2 ^ 20\<close>, for every stream of random values and every
  content of the storage as allocated, phase 1 starts from one cell of type 1 with no
  division and no path. There is a number \<open>k\<close> of passes such that the first \<open>k\<close> passes are
  whole passes that leave fewer than 8 cells and use no cell index outside the arrays,
  each of them started with the voxel of every active cell inside the grid; and then
  either the next pass starts with an active cell whose voxel is outside the grid, or
  the growth step of the next pass brings the count to exactly 8 with no cell index
  used outside the arrays, every one of the 8 cells has the division count 3, the
  division counts add up to 24, and the boundary loop that follows in this pass uses
  the index 8, which is outside the arrays of 8 entries. When no random value is below
  1/2 and the third coordinate that the storage holds for the seed cell is not negative,
  on a grid of positive resolution, every pass starts with every voxel inside the grid.
\<close>

theorem C1_phase1_growth:
  assumes "finalNumberCells p = 8" and "divThreshold p = 3"
    and "0 < pathThreshold p" and "pathThreshold p < 2 ^ 20"
  shows "n (initSim p raw) = 1 \<and> typesAll (initSim p raw) 0 = 1
       \<and> numberDivisions (initSim p raw) 0 = 0 \<and> pathTraveled (initSim p raw) 0 = 0
       \<and> (\<exists>k. (\<forall>j\<le>k. n ((phase1Step p rnd ^^ j) (initSim p raw)) < 8
                     \<and> oob ((phase1Step p rnd ^^ j) (initSim p raw)) = None)
              \<and> (\<forall>j<k. passValid p ((phase1Step p rnd ^^ j) (initSim p raw)))
              \<and> (\<not> passValid p ((phase1Step p rnd ^^ k) (initSim p raw))
                 \<or> n (growthPass p rnd ((phase1Step p rnd ^^ k) (initSim p raw))) = 8
                   \<and> oob (growthPass p rnd ((phase1Step p rnd ^^ k) (initSim p raw))) = None
                   \<and> (\<forall>c<8. numberDivisions
                               (growthPass p rnd ((phase1Step p rnd ^^ k) (initSim p raw))) c = 3)
                   \<and> (\<Sum>c<8. numberDivisions
                               (growthPass p rnd ((phase1Step p rnd ^^ k) (initSim p raw))) c) = 24
                   \<and> oob (phase1Step p rnd ((phase1Step p rnd ^^ k) (initSim p raw))) = Some 8))
       \<and> ((\<forall>i. 1/2 \<le> rnd i) \<and> 0 \<le> third (posAll raw 0) \<and> 0 < L p \<longrightarrow>
            (\<forall>j. passValid p ((phase1Step p rnd ^^ j) (initSim p raw))))"
proof -
  have e: "finalNumberCells p = 2 ^ divThreshold p" using assms by simp
  have i: "safeInv (divThreshold p) (initSim p raw)"
    by (rule safeInv_initSim[OF e]) (simp add: assms)
  from growth_reaches[OF e i, of rnd] obtain k where
    a: "\<forall>j. j \<le> k \<longrightarrow> n ((phase1Step p rnd ^^ j) (initSim p raw)) < finalNumberCells p
                         \<and> oob ((phase1Step p rnd ^^ j) (initSim p raw)) = None"
    and b: "\<forall>j. j < k \<longrightarrow> passValid p ((phase1Step p rnd ^^ j) (initSim p raw))"
    and c: "\<not> passValid p ((phase1Step p rnd ^^ k) (initSim p raw))
           \<or> n (growthPass p rnd ((phase1Step p rnd ^^ k) (initSim p raw))) = finalNumberCells p
             \<and> oob (growthPass p rnd ((phase1Step p rnd ^^ k) (initSim p raw))) = None
             \<and> (\<forall>c. c < finalNumberCells p \<longrightarrow>
                   numberDivisions (growthPass p rnd ((phase1Step p rnd ^^ k) (initSim p raw))) c
                     = int (divThreshold p))"
    unfolding growthOutcome_def by blast
  let ?g = "growthPass p rnd ((phase1Step p rnd ^^ k) (initSim p raw))"
  have c': "\<not> passValid p ((phase1Step p rnd ^^ k) (initSim p raw))
           \<or> n ?g = 8 \<and> oob ?g = None \<and> (\<forall>c<8. numberDivisions ?g c = 3)
             \<and> (\<Sum>c<8. numberDivisions ?g c) = 24
             \<and> oob (phase1Step p rnd ((phase1Step p rnd ^^ k) (initSim p raw))) = Some 8"
  proof (cases "passValid p ((phase1Step p rnd ^^ k) (initSim p raw))")
    case False
    then show ?thesis by simp
  next
    case True
    with c have d: "n ?g = 8" "oob ?g = None" "\<forall>c. c < 8 \<longrightarrow> numberDivisions ?g c = 3"
      using assms by simp_all
    have "capacity ?g = capacity ((phase1Step p rnd ^^ k) (initSim p raw))"
      using growthPass_book[where p = p and s = "(phase1Step p rnd ^^ k) (initSim p raw)" and rnd = rnd] by blast
    then have "capacity ?g = 8" using assms(1) by (simp add: capacity_run initSim_fields)
    then have "oob (clampPhase1 ?g) = Some (n ?g)"
      using d by (intro clampPhase1_oob_full) simp_all
    then have o: "oob (phase1Step p rnd ((phase1Step p rnd ^^ k) (initSim p raw))) = Some 8"
      using d(1) by (simp add: phase1Step_split)
    from sum_const_eight[OF d(3)] d o show ?thesis by simp
  qed
  have v: "(\<forall>i. 1/2 \<le> rnd i) \<and> 0 \<le> third (posAll raw 0) \<and> 0 < L p \<longrightarrow>
            (\<forall>j. passValid p ((phase1Step p rnd ^^ j) (initSim p raw)))"
    using run_passValid[of rnd raw p] assms(1) by simp
  have s: "n (initSim p raw) = 1 \<and> typesAll (initSim p raw) 0 = 1
       \<and> numberDivisions (initSim p raw) 0 = 0 \<and> pathTraveled (initSim p raw) 0 = 0"
    using assms by (simp add: initSim_fields)
  have a8: "\<forall>j\<le>k. n ((phase1Step p rnd ^^ j) (initSim p raw)) < 8
                     \<and> oob ((phase1Step p rnd ^^ j) (initSim p raw)) = None"
    using a assms(1) by simp
  have b8: "\<forall>j<k. passValid p ((phase1Step p rnd ^^ j) (initSim p raw))" using b by simp
  from s a8 b8 c' v show ?thesis by blast
qed

text \<open>
  An instance: the path threshold 1/4, the stream \<open>rndAxis\<close> and a storage that holds
  1/2 as the third coordinate. No voxel leaves the grid, so the growth step of some pass
  reaches 8 cells whose division counts add up to 24, and the boundary loop of that pass
  uses the index 8.
\<close>

theorem C1_phase1_growth_witness:
  "\<exists>k. passValid (exampleParams 8 3 (1/4))
          ((phase1Step (exampleParams 8 3 (1/4)) rndAxis ^^ k) (initSim (exampleParams 8 3 (1/4)) (rawSim (1/2))))
      \<and> n (growthPass (exampleParams 8 3 (1/4)) rndAxis
            ((phase1Step (exampleParams 8 3 (1/4)) rndAxis ^^ k) (initSim (exampleParams 8 3 (1/4)) (rawSim (1/2))))) = 8
      \<and> oob (growthPass (exampleParams 8 3 (1/4)) rndAxis
            ((phase1Step (exampleParams 8 3 (1/4)) rndAxis ^^ k) (initSim (exampleParams 8 3 (1/4)) (rawSim (1/2))))) = None
      \<and> (\<Sum>c<8. numberDivisions (growthPass (exampleParams 8 3 (1/4)) rndAxis
            ((phase1Step (exampleParams 8 3 (1/4)) rndAxis ^^ k) (initSim (exampleParams 8 3 (1/4)) (rawSim (1/2))))) c) = 24
      \<and> oob (phase1Step (exampleParams 8 3 (1/4)) rndAxis
            ((phase1Step (exampleParams 8 3 (1/4)) rndAxis ^^ k) (initSim (exampleParams 8 3 (1/4)) (rawSim (1/2))))) = Some 8"
proof -
  define p where "p = exampleParams 8 3 (1/4)"
  define raw where "raw = rawSim (1/2)"
  have a: "finalNumberCells p = 8" "divThreshold p = 3" "0 < pathThreshold p" "pathThreshold p < 2 ^ 20"
    by (simp_all add: p_def exampleParams_def)
  have h: "(\<forall>i. 1/2 \<le> rndAxis i) \<and> 0 \<le> third (posAll raw 0) \<and> 0 < L p"
    using rndAxis_half by (simp add: raw_def rawSim_def third_def p_def exampleParams_def)
  from C1_phase1_growth[OF a, of raw rndAxis] h
  have v: "\<forall>j. passValid p ((phase1Step p rndAxis ^^ j) (initSim p raw))" by blast
  from C1_phase1_growth[OF a, of raw rndAxis] v
  show ?thesis unfolding p_def[symmetric] raw_def[symmetric] by blast
qed

subsection \<open>A pass of phase 2\<close>



























end
